theory Spec2Isabelle
  imports Main
begin

section \<open>Host values\<close>

text \<open>
  The interpreter \<^verbatim>\<open>jfor_semicolons.py\<close> hands every expression to Python's
  \<^verbatim>\<open>eval\<close> and works on whatever object comes back.  The objects are modelled by
  a closed datatype: Python ints (unbounded), bools, strings, lists and \<^verbatim>\<open>None\<close>.
  Floats and objects that are mutated in place are outside the model.  A
  \<^typ>\<open>char\<close> stands for the code point of the same number, so text is made of
  code points below 256.
\<close>

datatype pyval = VInt int | VBool bool | VStr string | VList "pyval list" | VNone

datatype error =
    Unrecognized nat string  \<comment> \<open>\<^verbatim>\<open>SyntaxError(f"Unrecognized line {i+1}: {line}")\<close>\<close>
  | MissingEnd               \<comment> \<open>\<^verbatim>\<open>SyntaxError("missing 'end'")\<close>\<close>
  | ZeroStep                 \<comment> \<open>\<^verbatim>\<open>ValueError("by step cannot be 0")\<close>\<close>
  | TypeError                \<comment> \<open>raised by a host operator applied by the interpreter itself\<close>
  | EvalError string         \<comment> \<open>any exception raised inside \<^verbatim>\<open>eval\<close>\<close>

text \<open>Python's numeric reading of ints and bools (\<^verbatim>\<open>True == 1\<close>, \<^verbatim>\<open>False == 0\<close>).\<close>

fun to_num :: "pyval \<Rightarrow> int option" where
  "to_num (VInt n) = Some n"
| "to_num (VBool b) = Some (if b then 1 else 0)"
| "to_num _ = None"

text \<open>\<^verbatim>\<open>a == b\<close>: never raises on these values.\<close>

fun py_eq :: "pyval \<Rightarrow> pyval \<Rightarrow> bool"
and py_eq_list :: "pyval list \<Rightarrow> pyval list \<Rightarrow> bool" where
  "py_eq (VList xs) (VList ys) = py_eq_list xs ys"
| "py_eq (VStr a) (VStr b) = (a = b)"
| "py_eq VNone VNone = True"
| "py_eq a b = (case (to_num a, to_num b) of (Some m, Some n) \<Rightarrow> m = n | _ \<Rightarrow> False)"
| "py_eq_list [] [] = True"
| "py_eq_list (x # xs) (y # ys) = (py_eq x y \<and> py_eq_list xs ys)"
| "py_eq_list _ _ = False"

text \<open>
  Ordering.  \<open>py_cmp a b\<close> is \<open>-1\<close>, \<open>0\<close> or \<open>1\<close> when Python can order
  \<open>a\<close> and \<open>b\<close> and \<^verbatim>\<open>TypeError\<close> otherwise: numbers by value, strings by code
  point, lists by their first pair of unequal elements and then by length.
\<close>

fun cmp_int :: "int \<Rightarrow> int \<Rightarrow> int" where
  "cmp_int a b = (if a < b then - 1 else if a = b then 0 else 1)"

fun cmp_str :: "string \<Rightarrow> string \<Rightarrow> int" where
  "cmp_str [] [] = 0"
| "cmp_str [] (d # ds) = - 1"
| "cmp_str (c # cs) [] = 1"
| "cmp_str (c # cs) (d # ds) =
     (if c = d then cmp_str cs ds else cmp_int (of_char c) (of_char d))"

fun py_cmp :: "pyval \<Rightarrow> pyval \<Rightarrow> error + int"
and py_cmp_list :: "pyval list \<Rightarrow> pyval list \<Rightarrow> error + int" where
  "py_cmp (VList xs) (VList ys) = py_cmp_list xs ys"
| "py_cmp (VStr a) (VStr b) = Inr (cmp_str a b)"
| "py_cmp a b =
     (case (to_num a, to_num b) of (Some m, Some n) \<Rightarrow> Inr (cmp_int m n) | _ \<Rightarrow> Inl TypeError)"
| "py_cmp_list [] [] = Inr 0"
| "py_cmp_list [] (y # ys) = Inr (- 1)"
| "py_cmp_list (x # xs) [] = Inr 1"
| "py_cmp_list (x # xs) (y # ys) = (if py_eq x y then py_cmp_list xs ys else py_cmp x y)"

definition py_le :: "pyval \<Rightarrow> pyval \<Rightarrow> error + bool" where  \<comment> \<open>\<^verbatim>\<open>a <= b\<close>\<close>
  "py_le a b = (case py_cmp a b of Inl e \<Rightarrow> Inl e | Inr c \<Rightarrow> Inr (c \<le> 0))"

definition py_ge :: "pyval \<Rightarrow> pyval \<Rightarrow> error + bool" where  \<comment> \<open>\<^verbatim>\<open>a >= b\<close>\<close>
  "py_ge a b = (case py_cmp a b of Inl e \<Rightarrow> Inl e | Inr c \<Rightarrow> Inr (0 \<le> c))"

definition py_gt :: "pyval \<Rightarrow> pyval \<Rightarrow> error + bool" where  \<comment> \<open>\<^verbatim>\<open>a > b\<close>\<close>
  "py_gt a b = (case py_cmp a b of Inl e \<Rightarrow> Inl e | Inr c \<Rightarrow> Inr (0 < c))"

text \<open>\<^verbatim>\<open>a + b\<close> (the interpreter only uses it as \<^verbatim>\<open>n += step\<close>).\<close>

fun py_add :: "pyval \<Rightarrow> pyval \<Rightarrow> error + pyval" where
  "py_add (VStr a) (VStr b) = Inr (VStr (a @ b))"
| "py_add (VList xs) (VList ys) = Inr (VList (xs @ ys))"
| "py_add a b =
     (case (to_num a, to_num b) of (Some m, Some n) \<Rightarrow> Inr (VInt (m + n)) | _ \<Rightarrow> Inl TypeError)"

text \<open>\<^verbatim>\<open>bool(v)\<close>: Python truthiness.\<close>

fun py_bool :: "pyval \<Rightarrow> bool" where
  "py_bool (VInt n) = (n \<noteq> 0)"
| "py_bool (VBool b) = b"
| "py_bool (VStr a) = (a \<noteq> [])"
| "py_bool (VList xs) = (xs \<noteq> [])"
| "py_bool VNone = False"

text \<open>The elements \<^verbatim>\<open>for v in it\<close> visits, in order; a number or \<^verbatim>\<open>None\<close> is not iterable.\<close>

fun py_iter :: "pyval \<Rightarrow> error + pyval list" where
  "py_iter (VList xs) = Inr xs"
| "py_iter (VStr a) = Inr (map (\<lambda>c. VStr [c]) a)"
| "py_iter _ = Inl TypeError"

section \<open>Regular expressions\<close>

text \<open>
  The six patterns of the source use literals, the classes \<^verbatim>\<open>\s\<close>, \<^verbatim>\<open>\w\<close>,
  \<^verbatim>\<open>[A-Za-z_]\<close> and \<^verbatim>\<open>.\<close>, greedy and lazy repetition of one class, capture
  groups, one optional group and \<^verbatim>\<open>$\<close>.  They are matched the way \<^verbatim>\<open>re.match\<close>
  does it: anchored at the start of the string, alternatives tried in priority order
  with backtracking.  The leading \<^verbatim>\<open>^\<close> of each pattern is implied by the anchoring.
\<close>

datatype cclass = Space | Word | IdentStart | Dot

definition is_space :: "char \<Rightarrow> bool" where  \<comment> \<open>\<^verbatim>\<open>\s\<close>, and \<^verbatim>\<open>str.isspace\<close>\<close>
  "is_space c =
     (let n = (of_char c :: nat)
      in (9 \<le> n \<and> n \<le> 13) \<or> (28 \<le> n \<and> n \<le> 32) \<or> n = 133 \<or> n = 160)"

definition is_alpha :: "char \<Rightarrow> bool" where  \<comment> \<open>\<^verbatim>\<open>[A-Za-z]\<close>, with or without \<^verbatim>\<open>re.I\<close>\<close>
  "is_alpha c = (let n = (of_char c :: nat) in (65 \<le> n \<and> n \<le> 90) \<or> (97 \<le> n \<and> n \<le> 122))"

definition is_word :: "char \<Rightarrow> bool" where  \<comment> \<open>\<^verbatim>\<open>\w\<close>: letters and digits of Latin-1, and \<^verbatim>\<open>_\<close>\<close>
  "is_word c =
     (let n = (of_char c :: nat)
      in (48 \<le> n \<and> n \<le> 57) \<or> (65 \<le> n \<and> n \<le> 90) \<or> n = 95 \<or> (97 \<le> n \<and> n \<le> 122)
         \<or> n = 170 \<or> (178 \<le> n \<and> n \<le> 179) \<or> n = 181 \<or> (185 \<le> n \<and> n \<le> 186)
         \<or> (188 \<le> n \<and> n \<le> 190) \<or> (192 \<le> n \<and> n \<le> 214) \<or> (216 \<le> n \<and> n \<le> 246)
         \<or> 248 \<le> n)"

definition lower :: "char \<Rightarrow> char" where  \<comment> \<open>two characters match under \<^verbatim>\<open>re.I\<close> when equal after this\<close>
  "lower c = (let n = (of_char c :: nat) in if 65 \<le> n \<and> n \<le> 90 then char_of (n + 32) else c)"

fun in_class :: "cclass \<Rightarrow> char \<Rightarrow> bool" where
  "in_class Space c = is_space c"
| "in_class Word c = is_word c"
| "in_class IdentStart c = (is_alpha c \<or> c = CHR ''_'')"
| "in_class Dot c = (c \<noteq> CHR 0x0A)"

datatype rx =
    Lit string             \<comment> \<open>literal text\<close>
  | Rep cclass nat bool    \<comment> \<open>at least \<open>m\<close> characters of a class; greedy if the flag is set\<close>
  | One cclass             \<comment> \<open>one character of a class\<close>
  | Grp nat "rx list"      \<comment> \<open>capture group number \<open>k\<close>\<close>
  | Opt "rx list"          \<comment> \<open>\<^verbatim>\<open>(?:...)?\<close>\<close>
  | Eos                    \<comment> \<open>\<^verbatim>\<open>$\<close>: the end, or just before a final newline\<close>

type_synonym caps = "(nat \<times> string) list"

text \<open>A literal; \<open>ic\<close> is the flag \<^verbatim>\<open>re.I\<close>.\<close>

fun rx_lit :: "bool \<Rightarrow> string \<Rightarrow> string \<Rightarrow> string option" where
  "rx_lit ic [] inp = Some inp"
| "rx_lit ic (p # ps) [] = None"
| "rx_lit ic (p # ps) (c # cs) =
     (if (if ic then lower p = lower c else p = c) then rx_lit ic ps cs else None)"

text \<open>
  Repetition of a class, with the rest of the pattern as the continuation \<open>K\<close>: the
  greedy form tries the longest run first, the lazy form the shortest.
\<close>

fun rx_rep :: "cclass \<Rightarrow> bool \<Rightarrow> nat \<Rightarrow> string \<Rightarrow> (string \<Rightarrow> 'r option) \<Rightarrow> 'r option" where
  "rx_rep cl greedy m [] K = (if m = 0 then K [] else None)"
| "rx_rep cl greedy m (c # cs) K =
     (if in_class cl c then
        (if greedy then
           (case rx_rep cl greedy (m - 1) cs K of
              Some r \<Rightarrow> Some r
            | None \<Rightarrow> if m = 0 then K (c # cs) else None)
         else
           (case (if m = 0 then K (c # cs) else None) of
              Some r \<Rightarrow> Some r
            | None \<Rightarrow> rx_rep cl greedy (m - 1) cs K))
      else if m = 0 then K (c # cs) else None)"

fun rx_seq :: "bool \<Rightarrow> rx list \<Rightarrow> string \<Rightarrow> caps \<Rightarrow> (string \<Rightarrow> caps \<Rightarrow> 'r option) \<Rightarrow> 'r option"
and rx_item :: "bool \<Rightarrow> rx \<Rightarrow> string \<Rightarrow> caps \<Rightarrow> (string \<Rightarrow> caps \<Rightarrow> 'r option) \<Rightarrow> 'r option" where
  "rx_seq ic [] inp g K = K inp g"
| "rx_seq ic (x # xs) inp g K = rx_item ic x inp g (\<lambda>rest g'. rx_seq ic xs rest g' K)"
| "rx_item ic (Lit p) inp g K = (case rx_lit ic p inp of None \<Rightarrow> None | Some rest \<Rightarrow> K rest g)"
| "rx_item ic (Rep cl m greedy) inp g K = rx_rep cl greedy m inp (\<lambda>rest. K rest g)"
| "rx_item ic (One cl) inp g K =
     (case inp of [] \<Rightarrow> None | c # cs \<Rightarrow> if in_class cl c then K cs g else None)"
| "rx_item ic (Grp k xs) inp g K =
     rx_seq ic xs inp g (\<lambda>rest g'. K rest ((k, take (length inp - length rest) inp) # g'))"
| "rx_item ic (Opt xs) inp g K =
     (case rx_seq ic xs inp g K of Some r \<Rightarrow> Some r | None \<Rightarrow> K inp g)"
| "rx_item ic Eos inp g K = (if inp = [] \<or> inp = [CHR 0x0A] then K inp g else None)"

definition re_match :: "bool \<Rightarrow> rx list \<Rightarrow> string \<Rightarrow> caps option" where
  "re_match ic p inp = rx_seq ic p inp [] (\<lambda>rest g. Some g)"

text \<open>\<^verbatim>\<open>m.group(k)\<close>: \<open>None\<close> for a group that took no part in the match.\<close>

definition group :: "caps \<Rightarrow> nat \<Rightarrow> string option" where
  "group g k = map_of g k"

text \<open>\<^verbatim>\<open>m.group(k)\<close> for a group outside every optional part, which always takes part.\<close>

definition group_str :: "caps \<Rightarrow> nat \<Rightarrow> string" where
  "group_str g k = (case map_of g k of Some t \<Rightarrow> t | None \<Rightarrow> [])"

abbreviation ws0 :: rx where "ws0 \<equiv> Rep Space 0 True"        \<comment> \<open>\<^verbatim>\<open>\s*\<close>\<close>
abbreviation ws1 :: rx where "ws1 \<equiv> Rep Space 1 True"        \<comment> \<open>\<^verbatim>\<open>\s+\<close>\<close>
abbreviation ident :: "rx list" where "ident \<equiv> [One IdentStart, Rep Word 0 True]"  \<comment> \<open>\<^verbatim>\<open>[A-Za-z_]\w*\<close>\<close>
abbreviation lazy0 :: rx where "lazy0 \<equiv> Rep Dot 0 False"     \<comment> \<open>\<^verbatim>\<open>.*?\<close>\<close>
abbreviation lazy1 :: rx where "lazy1 \<equiv> Rep Dot 1 False"     \<comment> \<open>\<^verbatim>\<open>.+?\<close>\<close>
abbreviation greedy1 :: rx where "greedy1 \<equiv> Rep Dot 1 True"  \<comment> \<open>\<^verbatim>\<open>.+\<close>\<close>

definition RX_FOR_COUNTER :: "rx list" where
  "RX_FOR_COUNTER =
     [ws0, Lit ''for'', ws1, Grp 1 ident, ws0, Lit ''='', ws0, Grp 2 [lazy1], ws1, Lit ''to'', ws1,
      Grp 3 [lazy1], Opt [ws1, Lit ''by'', ws1, Grp 4 [lazy1]], ws1, Lit ''do'', ws0, Eos]"

definition RX_FOR_ITER :: "rx list" where
  "RX_FOR_ITER =
     [ws0, Lit ''for'', ws1, Grp 1 ident, ws1, Lit ''in'', ws1, Grp 2 [lazy1], ws1, Lit ''do'', ws0, Eos]"

definition RX_FOR_CSTYLE :: "rx list" where
  "RX_FOR_CSTYLE =
     [ws0, Lit ''for'', ws0, Lit ''('', ws0, Grp 1 [lazy0], ws0, Lit '';'', ws0, Grp 2 [lazy0], ws0,
      Lit '';'', ws0, Grp 3 [lazy0], ws0, Lit '')'', ws1, Lit ''do'', ws0, Eos]"

definition RX_END :: "rx list" where
  "RX_END = [ws0, Lit ''end'', ws0, Eos]"

definition RX_PRINT :: "rx list" where
  "RX_PRINT = [ws0, Lit ''print'', ws1, Grp 1 [greedy1], ws0, Eos]"

definition RX_ASSIGN :: "rx list" where
  "RX_ASSIGN = [ws0, Grp 1 ident, ws0, Lit ''='', ws0, Grp 2 [greedy1], ws0, Eos]"

text \<open>\<^verbatim>\<open>str.rstrip\<close>, \<^verbatim>\<open>str.lstrip\<close>, \<^verbatim>\<open>str.strip\<close>.\<close>

definition rstrip :: "string \<Rightarrow> string" where
  "rstrip a = rev (dropWhile is_space (rev a))"

definition lstrip :: "string \<Rightarrow> string" where
  "lstrip a = dropWhile is_space a"

definition strip :: "string \<Rightarrow> string" where
  "strip a = lstrip (rstrip a)"

section \<open>Lines\<close>

text \<open>
  The tests \<^verbatim>\<open>_exec_lines\<close> makes on a line (source lines 34 to 142), in its order:
  blank or comment, counter header, iterator header, C-style header, \<^verbatim>\<open>end\<close>,
  \<^verbatim>\<open>print\<close>, assignment.  All patterns but the last carry \<^verbatim>\<open>re.I\<close>.
\<close>

datatype stmt =
    Blank
  | Counter string string string "string option"  \<comment> \<open>var, start, end, step\<close>
  | Iter string string                            \<comment> \<open>var, expr\<close>
  | CStyle string string string                   \<comment> \<open>init, cond, step\<close>
  | End
  | Print string
  | Assign string string
  | NoMatch

definition classify :: "string \<Rightarrow> stmt" where
  "classify line =
     (if strip line = [] \<or> (case lstrip line of [] \<Rightarrow> False | c # _ \<Rightarrow> c = CHR ''#'') then Blank
      else case re_match True RX_FOR_COUNTER line of
        Some m \<Rightarrow> Counter (group_str m 1) (group_str m 2) (group_str m 3) (group m 4)
      | None \<Rightarrow>
     (case re_match True RX_FOR_ITER line of
        Some m \<Rightarrow> Iter (group_str m 1) (group_str m 2)
      | None \<Rightarrow>
     (case re_match True RX_FOR_CSTYLE line of
        Some m \<Rightarrow> CStyle (group_str m 1) (group_str m 2) (group_str m 3)
      | None \<Rightarrow>
     (case re_match True RX_END line of
        Some m \<Rightarrow> End
      | None \<Rightarrow>
     (case re_match True RX_PRINT line of
        Some m \<Rightarrow> Print (group_str m 1)
      | None \<Rightarrow>
     (case re_match False RX_ASSIGN line of
        Some m \<Rightarrow> Assign (group_str m 1) (group_str m 2)
      | None \<Rightarrow> NoMatch))))))"

text \<open>The tests of \<^verbatim>\<open>_collect_block\<close> (source lines 151 and 153).\<close>

definition is_header :: "string \<Rightarrow> bool" where
  "is_header line =
     (re_match True RX_FOR_COUNTER line \<noteq> None \<or> re_match True RX_FOR_ITER line \<noteq> None
      \<or> re_match True RX_FOR_CSTYLE line \<noteq> None)"

definition is_end :: "string \<Rightarrow> bool" where
  "is_end line = (re_match True RX_END line \<noteq> None)"

section \<open>The block matcher\<close>

text \<open>
  \<^verbatim>\<open>_collect_block\<close>: the loop state is the index, the depth and the block collected
  so far.
\<close>

function collect_loop :: "string list \<Rightarrow> nat \<Rightarrow> int \<Rightarrow> string list \<Rightarrow> error + string list \<times> nat" where
  "collect_loop lines i depth block =
     (if i < length lines then
        (let depth1 = (if is_header (lines ! i) then depth + 1 else depth) in
         if is_end (lines ! i) then
           (if depth1 - 1 = 0 then Inr (block, i + 1)
            else collect_loop lines (i + 1) (depth1 - 1) (block @ [lines ! i]))
         else collect_loop lines (i + 1) depth1 (block @ [lines ! i]))
      else Inl MissingEnd)"
  by pat_completeness auto
termination
  by (relation "measure (\<lambda>(lines, i, depth, block). length lines - i)") auto

definition collect_block :: "string list \<Rightarrow> nat \<Rightarrow> error + string list \<times> nat" where
  "collect_block lines i = collect_loop lines i 1 []"

section \<open>The interpreter\<close>

text \<open>
  The state of a run: the shared environment \<^verbatim>\<open>self.env\<close> and what has been printed
  so far (each entry is a value handed to \<^verbatim>\<open>print\<close>, oldest first).
\<close>

record state =
  env :: "string \<rightharpoonup> pyval"
  out :: "pyval list"

text \<open>
  A step either returns a value or raises; either way it leaves a state behind, the one
  in which the exception was raised or the value returned.
\<close>

type_synonym 'a res = "(error + 'a) \<times> state"

text \<open>
  \<^verbatim>\<open>_eval\<close> is Python's \<^verbatim>\<open>eval(expr, {}, self.env)\<close>.  It is a parameter of the model:
  any function that, from the expression text and the state, returns a value or an
  error.  It may change the state, as \<^verbatim>\<open>eval\<close> may (a walrus expression binds a name in
  \<^verbatim>\<open>self.env\<close>, a call of \<^verbatim>\<open>print\<close> writes output).  A call of \<^verbatim>\<open>eval\<close> that
  never returns is outside the model.
\<close>

type_synonym evaluator = "string \<Rightarrow> state \<Rightarrow> pyval res"

text \<open>
  Loops may run forever, so every \<^verbatim>\<open>while\<close> loop of the interpreter takes fuel, spends
  one unit on each iteration, and returns \<open>None\<close> when it runs out.
\<close>

definition bind :: "'a res option \<Rightarrow> ('a \<Rightarrow> state \<Rightarrow> 'b res option) \<Rightarrow> 'b res option" where
  "bind m f =
     (case m of
        None \<Rightarrow> None
      | Some (Inl e, s) \<Rightarrow> Some (Inl e, s)
      | Some (Inr x, s) \<Rightarrow> f x s)"

text \<open>A host operation that does not touch the state.\<close>

definition host :: "error + 'a \<Rightarrow> state \<Rightarrow> 'a res option" where
  "host r s = Some (r, s)"

text \<open>\<^verbatim>\<open>self.env[name] = v\<close>\<close>

definition bind_var :: "string \<Rightarrow> pyval \<Rightarrow> state \<Rightarrow> state" where
  "bind_var name v s = s\<lparr>env := (env s)(name \<mapsto> v)\<rparr>"

text \<open>\<^verbatim>\<open>do_assign\<close> (source lines 84 to 92): a clause of a C-style header.\<close>

datatype clause = NoClause | ExprClause string | AssignClause string string

definition do_assign :: "string \<Rightarrow> clause" where
  "do_assign a =
     (let t = strip a in
      if t = [] then NoClause
      else case re_match False RX_ASSIGN t of
        None \<Rightarrow> ExprClause t
      | Some am \<Rightarrow> AssignClause (group_str am 1) (group_str am 2))"

text \<open>Running the init clause (source lines 101 to 106) or the step clause (114 to 119).\<close>

definition run_clause :: "evaluator \<Rightarrow> clause \<Rightarrow> state \<Rightarrow> unit res" where
  "run_clause ev c s =
     (case c of
        NoClause \<Rightarrow> (Inr (), s)
      | AssignClause name rhs \<Rightarrow>
          (case ev rhs s of
             (Inl e, s') \<Rightarrow> (Inl e, s')
           | (Inr v, s') \<Rightarrow> (Inr (), bind_var name v s'))
      | ExprClause e \<Rightarrow>
          (case ev e s of
             (Inl err, s') \<Rightarrow> (Inl err, s')
           | (Inr v, s') \<Rightarrow> (Inr (), s')))"

text \<open>The condition of a C-style header (source line 110).\<close>

definition eval_cond :: "evaluator \<Rightarrow> string \<Rightarrow> state \<Rightarrow> bool res" where
  "eval_cond ev cond s =
     (if cond = [] then (Inr True, s)
      else case ev cond s of
        (Inl e, s') \<Rightarrow> (Inl e, s')
      | (Inr v, s') \<Rightarrow> (Inr (py_bool v), s'))"

text \<open>
  The header of a counter loop (source lines 45 to 49): start, end and step are
  evaluated in this order, then the step is compared with zero.
\<close>

definition counter_header ::
  "evaluator \<Rightarrow> string \<Rightarrow> string \<Rightarrow> string option \<Rightarrow> state \<Rightarrow> (pyval \<times> pyval \<times> pyval) res" where
  "counter_header ev start_s end_s step_s s =
     (case ev start_s s of
        (Inl e, s1) \<Rightarrow> (Inl e, s1)
      | (Inr start, s1) \<Rightarrow>
     (case ev end_s s1 of
        (Inl e, s2) \<Rightarrow> (Inl e, s2)
      | (Inr end, s2) \<Rightarrow>
     (case (case step_s of
              None \<Rightarrow> (Inr (VInt 1), s2)
            | Some t \<Rightarrow> if t = [] then (Inr (VInt 1), s2) else ev t s2) of
        (Inl e, s3) \<Rightarrow> (Inl e, s3)
      | (Inr step, s3) \<Rightarrow>
          if py_eq step (VInt 0) then (Inl ZeroStep, s3) else (Inr (start, end, step), s3))))"

text \<open>
  \<^verbatim>\<open>_run_block\<close> (source lines 161 to 164).  \<open>exec\<close> is \<^verbatim>\<open>self._exec_lines\<close>.
\<close>

primrec run_block ::
  "(string list \<Rightarrow> nat \<Rightarrow> state \<Rightarrow> nat res option) \<Rightarrow> nat \<Rightarrow> string list \<Rightarrow> nat \<Rightarrow> state
   \<Rightarrow> unit res option" where
  "run_block exec 0 block_lines j s = None"
| "run_block exec (Suc k) block_lines j s =
     (if j < length block_lines then
        bind (exec block_lines j s) (\<lambda>i s1. run_block exec k block_lines (i + 1) s1)
      else Some (Inr (), s))"

text \<open>
  The loops of the three forms.  \<open>body\<close> is \<^verbatim>\<open>self._run_block(block)\<close>.
  Counter form, step \<open>> 0\<close> (source lines 54 to 58) and otherwise (60 to 64):
\<close>

primrec counter_up ::
  "(state \<Rightarrow> unit res option) \<Rightarrow> nat \<Rightarrow> string \<Rightarrow> pyval \<Rightarrow> pyval \<Rightarrow> pyval \<Rightarrow> state \<Rightarrow> unit res option" where
  "counter_up body 0 var n end step s = None"
| "counter_up body (Suc k) var n end step s =
     bind (host (py_le n end) s) (\<lambda>go s1.
       if go then
         bind (body (bind_var var n s1)) (\<lambda>_ s2.
         bind (host (py_add n step) s2) (\<lambda>n' s3.
         counter_up body k var n' end step s3))
       else Some (Inr (), s1))"

primrec counter_down ::
  "(state \<Rightarrow> unit res option) \<Rightarrow> nat \<Rightarrow> string \<Rightarrow> pyval \<Rightarrow> pyval \<Rightarrow> pyval \<Rightarrow> state \<Rightarrow> unit res option" where
  "counter_down body 0 var n end step s = None"
| "counter_down body (Suc k) var n end step s =
     bind (host (py_ge n end) s) (\<lambda>go s1.
       if go then
         bind (body (bind_var var n s1)) (\<lambda>_ s2.
         bind (host (py_add n step) s2) (\<lambda>n' s3.
         counter_down body k var n' end step s3))
       else Some (Inr (), s1))"

text \<open>Iterator form (source lines 73 to 75), over the elements of the collection:\<close>

primrec for_each ::
  "(state \<Rightarrow> unit res option) \<Rightarrow> string \<Rightarrow> pyval list \<Rightarrow> state \<Rightarrow> unit res option" where
  "for_each body var [] s = Some (Inr (), s)"
| "for_each body var (v # vs) s =
     bind (body (bind_var var v s)) (\<lambda>_ s1. for_each body var vs s1)"

text \<open>C-style form (source lines 109 to 119):\<close>

primrec cstyle_while ::
  "evaluator \<Rightarrow> (state \<Rightarrow> unit res option) \<Rightarrow> nat \<Rightarrow> string \<Rightarrow> clause \<Rightarrow> state \<Rightarrow> unit res option" where
  "cstyle_while ev body 0 cond step s = None"
| "cstyle_while ev body (Suc k) cond step s =
     bind (Some (eval_cond ev cond s)) (\<lambda>ok s1.
       if \<not> ok then Some (Inr (), s1)
       else
         bind (body s1) (\<lambda>_ s2.
         bind (Some (run_clause ev step s2)) (\<lambda>_ s3.
         cstyle_while ev body k cond step s3)))"

text \<open>
  One turn of the \<^verbatim>\<open>while\<close> loop of \<^verbatim>\<open>_exec_lines\<close> (source lines 33 to 144).
  \<open>exec\<close> is \<^verbatim>\<open>_exec_lines\<close> itself, for the next turn and for the blocks, and \<open>k\<close>
  the fuel handed to the loops.
\<close>

definition exec_step ::
  "evaluator \<Rightarrow> (string list \<Rightarrow> nat \<Rightarrow> state \<Rightarrow> nat res option) \<Rightarrow> nat \<Rightarrow> string list \<Rightarrow> nat \<Rightarrow> state
   \<Rightarrow> nat res option" where
  "exec_step ev exec k lines i s =
     (if i < length lines then
        (case classify (rstrip (lines ! i)) of
           Blank \<Rightarrow> exec lines (i + 1) s
         | Counter var start_s end_s step_s \<Rightarrow>
             bind (Some (counter_header ev start_s end_s step_s s)) (\<lambda>(start, end, step) s1.
             bind (host (collect_block lines (i + 1)) s1) (\<lambda>(block, i') s2.
             bind (host (py_gt step (VInt 0)) s2) (\<lambda>up s3.
             bind (if up then counter_up (run_block exec k block 0) k var start end step s3
                   else counter_down (run_block exec k block 0) k var start end step s3) (\<lambda>_ s4.
             exec lines i' s4))))
         | Iter var expr \<Rightarrow>
             bind (Some (ev expr s)) (\<lambda>it s1.
             bind (host (collect_block lines (i + 1)) s1) (\<lambda>(block, i') s2.
             bind (host (py_iter it) s2) (\<lambda>elems s3.
             bind (for_each (run_block exec k block 0) var elems s3) (\<lambda>_ s4.
             exec lines i' s4))))
         | CStyle init_s cond_s step_s \<Rightarrow>
             bind (host (collect_block lines (i + 1)) s) (\<lambda>(block, i') s1.
             bind (Some (run_clause ev (do_assign init_s) s1)) (\<lambda>_ s2.
             bind (cstyle_while ev (run_block exec k block 0) k (strip cond_s) (do_assign step_s) s2)
               (\<lambda>_ s3.
             exec lines i' s3)))
         | End \<Rightarrow> Some (Inr i, s)
         | Print expr \<Rightarrow>
             bind (Some (ev expr s)) (\<lambda>val s1.
             exec lines (i + 1) (s1\<lparr>out := out s1 @ [val]\<rparr>))
         | Assign name expr \<Rightarrow>
             bind (Some (ev expr s)) (\<lambda>val s1.
             exec lines (i + 1) (bind_var name val s1))
         | NoMatch \<Rightarrow> Some (Inl (Unrecognized (i + 1) (rstrip (lines ! i))), s))
      else Some (Inr i, s))"

text \<open>\<^verbatim>\<open>_exec_lines\<close>: the turns of its loop, at most \<open>fuel\<close> of them.\<close>

primrec exec_lines :: "evaluator \<Rightarrow> nat \<Rightarrow> string list \<Rightarrow> nat \<Rightarrow> state \<Rightarrow> nat res option" where
  "exec_lines ev 0 lines i s = None"
| "exec_lines ev (Suc k) lines i s = exec_step ev (exec_lines ev k) k lines i s"

text \<open>
  \<^verbatim>\<open>run\<close> (source lines 166 to 170) on the lines of the program text.  Its loop is the
  loop of \<^verbatim>\<open>_run_block\<close> on the whole text; \<^verbatim>\<open>__init__\<close> starts from the empty
  environment.  \<^verbatim>\<open>str.splitlines\<close> is the host's.
\<close>

definition init_state :: state where
  "init_state = \<lparr>env = Map.empty, out = []\<rparr>"

definition run_from :: "evaluator \<Rightarrow> nat \<Rightarrow> string list \<Rightarrow> nat \<Rightarrow> state \<Rightarrow> unit res option" where
  "run_from ev fuel lines i s = run_block (exec_lines ev fuel) fuel lines i s"

definition run :: "evaluator \<Rightarrow> nat \<Rightarrow> string list \<Rightarrow> unit res option" where
  "run ev fuel lines = run_from ev fuel lines 0 init_state"

section \<open>Reference notions\<close>

text \<open>
  The depth counter as the specification describes it: it starts at 1, every header
  line adds one and every terminator line takes one away.  \<open>depth_after lines i k\<close> is
  its value once the lines \<open>i, ..., k - 1\<close> have been scanned.
\<close>

definition depth_after :: "string list \<Rightarrow> nat \<Rightarrow> nat \<Rightarrow> int" where
  "depth_after lines i k =
     1 + int (length (filter is_header (take (k - i) (drop i lines))))
       - int (length (filter is_end (take (k - i) (drop i lines))))"

text \<open>
  The number of values \<open>a, a + st, a + 2 st, ...\<close> that lie on the near side of
  \<open>b\<close>: not above it when the step is positive, not below it when it is negative.
\<close>

definition counter_count :: "int \<Rightarrow> int \<Rightarrow> int \<Rightarrow> nat" where
  "counter_count a b st =
     (if 0 < st then nat ((b - a) div st + 1) else nat ((a - b) div (- st) + 1))"

definition counter_values :: "int \<Rightarrow> int \<Rightarrow> int \<Rightarrow> pyval list" where
  "counter_values a b st = map (\<lambda>k. VInt (a + int k * st)) [0 ..< counter_count a b st]"

section \<open>An evaluator for the examples\<close>

text \<open>
  The examples need some evaluator.  This one knows the expressions listed in a table,
  each with its reading as a small expression tree over the host operations, and raises
  an error on any other text.  It changes nothing in the state.
\<close>

datatype expr = Num int | Val pyval | Var string | Plus expr expr | Less expr expr

fun eval_expr :: "expr \<Rightarrow> (string \<rightharpoonup> pyval) \<Rightarrow> error + pyval" where
  "eval_expr (Num n) e = Inr (VInt n)"
| "eval_expr (Val v) e = Inr v"
| "eval_expr (Var x) e = (case e x of Some v \<Rightarrow> Inr v | None \<Rightarrow> Inl (EvalError x))"
| "eval_expr (Plus a b) e =
     (case eval_expr a e of
        Inl err \<Rightarrow> Inl err
      | Inr u \<Rightarrow> (case eval_expr b e of Inl err \<Rightarrow> Inl err | Inr v \<Rightarrow> py_add u v))"
| "eval_expr (Less a b) e =
     (case eval_expr a e of
        Inl err \<Rightarrow> Inl err
      | Inr u \<Rightarrow>
          (case eval_expr b e of
             Inl err \<Rightarrow> Inl err
           | Inr v \<Rightarrow> (case py_gt v u of Inl err \<Rightarrow> Inl err | Inr t \<Rightarrow> Inr (VBool t))))"

definition table_eval :: "(string \<times> expr) list \<Rightarrow> evaluator" where
  "table_eval tbl a s =
     (case map_of tbl a of
        Some x \<Rightarrow> (eval_expr x (env s), s)
      | None \<Rightarrow> (Inl (EvalError a), s))"

text \<open>What a run shows: how it ended and what it printed.\<close>

definition outcome :: "'a res option \<Rightarrow> ((error + 'a) \<times> pyval list) option" where
  "outcome r = map_option (\<lambda>(x, s). (x, out s)) r"

section \<open>Sequencing and fuel\<close>

lemma bind_None [simp]: "bind None f = None"
  by (simp add: bind_def)

lemma bind_Inl [simp]: "bind (Some (Inl e, s)) f = Some (Inl e, s)"
  by (simp add: bind_def)

lemma bind_Inr [simp]: "bind (Some (Inr x, s)) f = f x s"
  by (simp add: bind_def)

lemma bind_host_Inl [simp]: "bind (host (Inl e) s) f = Some (Inl e, s)"
  by (simp add: host_def)

lemma bind_host_Inr [simp]: "bind (host (Inr x) s) f = f x s"
  by (simp add: host_def)

lemma bind_mono:
  assumes "bind m f = Some r"
    and "\<And>x. m = Some x \<Longrightarrow> m' = Some x"
    and "\<And>x s. f x s = Some r \<Longrightarrow> f' x s = Some r"
  shows "bind m' f' = Some r"
proof (cases m)
  case None
  with assms(1) show ?thesis by simp
next
  case (Some p)
  obtain y s where p: "p = (y, s)" by (cases p)
  have m': "m' = Some (y, s)" using assms(2) Some p by simp
  show ?thesis
  proof (cases y)
    case (Inl e)
    with assms(1) Some p m' show ?thesis by simp
  next
    case (Inr x)
    with assms(1) Some p have "f x s = Some r" by simp
    then have "f' x s = Some r" by (rule assms(3))
    with Inr m' show ?thesis by simp
  qed
qed

lemma run_block_mono:
  assumes ex: "\<And>l i s r. exec l i s = Some r \<Longrightarrow> exec' l i s = Some r"
  shows "run_block exec k b j s = Some r \<Longrightarrow> k \<le> k' \<Longrightarrow> run_block exec' k' b j s = Some r"
proof (induction k arbitrary: k' j s)
  case 0
  then show ?case by simp
next
  case (Suc k)
  then obtain k'' where k': "k' = Suc k''" and le: "k \<le> k''" by (cases k') auto
  show ?case
  proof (cases "j < length b")
    case True
    with Suc.prems(1) have "bind (exec b j s) (\<lambda>i s1. run_block exec k b (i + 1) s1) = Some r"
      by simp
    then have "bind (exec' b j s) (\<lambda>i s1. run_block exec' k'' b (i + 1) s1) = Some r"
      by (rule bind_mono) (auto intro: ex Suc.IH le)
    with True k' show ?thesis by simp
  next
    case False
    with Suc.prems(1) k' show ?thesis by simp
  qed
qed

lemma counter_up_mono:
  assumes bd: "\<And>s r. body s = Some r \<Longrightarrow> body' s = Some r"
  shows "counter_up body k var n e st s = Some r \<Longrightarrow> k \<le> k'
         \<Longrightarrow> counter_up body' k' var n e st s = Some r"
proof (induction k arbitrary: k' n s)
  case 0
  then show ?case by simp
next
  case (Suc k)
  then obtain k'' where k': "k' = Suc k''" and le: "k \<le> k''" by (cases k') auto
  have "counter_up body' (Suc k'') var n e st s = Some r"
    using Suc.prems(1) unfolding counter_up.simps
    apply (rule bind_mono)
     apply assumption
    apply (simp split: if_splits)
    apply (erule bind_mono)
     apply (erule bd)
    apply (erule bind_mono)
     apply assumption
    apply (erule Suc.IH)
    apply (rule le)
    done
  with k' show ?case by simp
qed

lemma counter_down_mono:
  assumes bd: "\<And>s r. body s = Some r \<Longrightarrow> body' s = Some r"
  shows "counter_down body k var n e st s = Some r \<Longrightarrow> k \<le> k'
         \<Longrightarrow> counter_down body' k' var n e st s = Some r"
proof (induction k arbitrary: k' n s)
  case 0
  then show ?case by simp
next
  case (Suc k)
  then obtain k'' where k': "k' = Suc k''" and le: "k \<le> k''" by (cases k') auto
  have "counter_down body' (Suc k'') var n e st s = Some r"
    using Suc.prems(1) unfolding counter_down.simps
    apply (rule bind_mono)
     apply assumption
    apply (simp split: if_splits)
    apply (erule bind_mono)
     apply (erule bd)
    apply (erule bind_mono)
     apply assumption
    apply (erule Suc.IH)
    apply (rule le)
    done
  with k' show ?case by simp
qed

lemma for_each_mono:
  assumes bd: "\<And>s r. body s = Some r \<Longrightarrow> body' s = Some r"
  shows "for_each body var vs s = Some r \<Longrightarrow> for_each body' var vs s = Some r"
proof (induction vs arbitrary: s)
  case Nil
  then show ?case by simp
next
  case (Cons v vs)
  from Cons.prems show ?case
    unfolding for_each.simps
    by (rule bind_mono) (auto intro: bd Cons.IH)
qed

lemma cstyle_while_mono:
  assumes bd: "\<And>s r. body s = Some r \<Longrightarrow> body' s = Some r"
  shows "cstyle_while ev body k c st s = Some r \<Longrightarrow> k \<le> k'
         \<Longrightarrow> cstyle_while ev body' k' c st s = Some r"
proof (induction k arbitrary: k' s)
  case 0
  then show ?case by simp
next
  case (Suc k)
  then obtain k'' where k': "k' = Suc k''" and le: "k \<le> k''" by (cases k') auto
  have "cstyle_while ev body' (Suc k'') c st s = Some r"
    using Suc.prems(1) unfolding cstyle_while.simps
    apply (rule bind_mono)
     apply assumption
    apply (simp split: if_splits)
    apply (erule bind_mono)
     apply (erule bd)
    apply (erule bind_mono)
     apply assumption
    apply (erule Suc.IH)
    apply (rule le)
    done
  with k' show ?case by simp
qed

lemma exec_step_mono:
  assumes ex: "\<And>l i s r. exec l i s = Some r \<Longrightarrow> exec' l i s = Some r"
    and le: "k \<le> k'"
    and run: "exec_step ev exec k lines i s = Some r"
  shows "exec_step ev exec' k' lines i s = Some r"
proof -
  have rb: "\<And>b s r. run_block exec k b 0 s = Some r \<Longrightarrow> run_block exec' k' b 0 s = Some r"
    using run_block_mono [of exec exec', OF ex] le by blast
  show ?thesis
  proof (cases "i < length lines")
    case False
    with run show ?thesis by (simp add: exec_step_def)
  next
    case True
    show ?thesis
    proof (cases "classify (rstrip (lines ! i))")
      case Blank
      with True run show ?thesis by (simp add: exec_step_def ex)
    next
      case (Counter var a b st)
      from run True Counter show ?thesis
        unfolding exec_step_def
        apply simp
        apply (erule bind_mono, assumption)
        apply (clarsimp simp del: bind_host_Inl bind_host_Inr)
        apply (erule bind_mono, assumption)
        apply (clarsimp simp del: bind_host_Inl bind_host_Inr)
        apply (erule bind_mono, assumption)
        apply (erule bind_mono)
         apply (auto split: if_splits intro: ex counter_up_mono [OF rb] counter_down_mono [OF rb] le)
        done
    next
      case (Iter var e)
      from run True Iter show ?thesis
        unfolding exec_step_def
        apply simp
        apply (erule bind_mono, assumption)
        apply (erule bind_mono, assumption)
        apply (clarsimp simp del: bind_host_Inl bind_host_Inr)
        apply (erule bind_mono, assumption)
        apply (erule bind_mono)
         apply (auto intro: ex for_each_mono [OF rb])
        done
    next
      case (CStyle a b c)
      from run True CStyle show ?thesis
        unfolding exec_step_def
        apply simp
        apply (erule bind_mono, assumption)
        apply (clarsimp simp del: bind_host_Inl bind_host_Inr)
        apply (erule bind_mono, assumption)
        apply (erule bind_mono)
         apply (auto intro: ex cstyle_while_mono [OF rb] le)
        done
    next
      case End
      with True run show ?thesis by (simp add: exec_step_def)
    next
      case (Print e)
      from run True Print show ?thesis
        unfolding exec_step_def
        apply simp
        apply (erule bind_mono, assumption)
        apply (erule ex)
        done
    next
      case (Assign x e)
      from run True Assign show ?thesis
        unfolding exec_step_def
        apply simp
        apply (erule bind_mono, assumption)
        apply (erule ex)
        done
    next
      case NoMatch
      with True run show ?thesis by (simp add: exec_step_def)
    qed
  qed
qed

lemma exec_lines_Suc: "exec_lines ev k l i s = Some r \<Longrightarrow> exec_lines ev (Suc k) l i s = Some r"
proof (induction k arbitrary: l i s r)
  case 0
  then show ?case by simp
next
  case (Suc k)
  have ex: "\<And>l i s r. exec_lines ev k l i s = Some r \<Longrightarrow> exec_lines ev (Suc k) l i s = Some r"
    by (rule Suc.IH)
  have "exec_step ev (exec_lines ev k) k l i s = Some r" using Suc.prems by simp
  then have "exec_step ev (exec_lines ev (Suc k)) (Suc k) l i s = Some r"
    by (rule exec_step_mono [of "exec_lines ev k" "exec_lines ev (Suc k)" k "Suc k", rotated 2])
      (simp_all only: ex le_SucI order_refl)
  then show ?case by simp
qed

lemma exec_lines_mono:
  "k \<le> k' \<Longrightarrow> exec_lines ev k l i s = Some r \<Longrightarrow> exec_lines ev k' l i s = Some r"
  by (induction k' rule: dec_induct) (auto intro: exec_lines_Suc simp del: exec_lines.simps)

lemma body_mono:
  "run_block (exec_lines ev k) k b j s = Some r \<Longrightarrow> k \<le> k'
   \<Longrightarrow> run_block (exec_lines ev k') k' b j s = Some r"
  by (rule run_block_mono [of "exec_lines ev k" "exec_lines ev k'"])
    (simp_all only: exec_lines_mono)

lemma run_from_error:
  assumes "i < length lines" and "exec_lines ev (Suc f) lines i s = Some (Inl e, t)"
  shows "run_from ev (Suc f) lines i s = Some (Inl e, t)"
  using assms by (simp add: run_from_def del: exec_lines.simps)

lemma py_eq_zero: "to_num z = Some 0 \<Longrightarrow> py_eq z (VInt 0)"
  by (cases z) (simp_all split: if_splits)

section \<open>Errors\<close>

text \<open>
  \<^bold>\<open>C6.\<close>  A counter header whose step expression evaluates to zero (\<^verbatim>\<open>0\<close>, or
  \<^verbatim>\<open>False\<close>, which Python takes for zero) fails with \<^verbatim>\<open>ValueError\<close>, whatever the
  start and end values are.  The state at the failure is the state the three header
  expressions left: no line of the body has run, and the error ends the run.
\<close>

theorem zero_step_fails:
  assumes "i < length lines"
    and "classify (rstrip (lines ! i)) = Counter var start_s end_s (Some step_s)"
    and "step_s \<noteq> []"
    and "ev start_s s = (Inr a, s1)"
    and "ev end_s s1 = (Inr b, s2)"
    and "ev step_s s2 = (Inr z, s3)"
    and "to_num z = Some 0"
  shows "exec_lines ev (Suc f) lines i s = Some (Inl ZeroStep, s3)
       \<and> run_from ev (Suc f) lines i s = Some (Inl ZeroStep, s3)"
proof -
  have hdr: "counter_header ev start_s end_s (Some step_s) s = (Inl ZeroStep, s3)"
    using assms(3-7) by (simp add: counter_header_def py_eq_zero)
  have "exec_lines ev (Suc f) lines i s = Some (Inl ZeroStep, s3)"
    using assms(1,2) hdr by (simp add: exec_step_def)
  then show ?thesis using run_from_error [OF assms(1)] by blast
qed

theorem zero_step_fails_witness:
  "exec_lines (table_eval [(''1'', Num 1), (''5'', Num 5), (''0'', Num 0)]) (Suc 0)
     [''for i = 5 to 1 by 0 do'', ''  print i'', ''end''] 0 init_state = Some (Inl ZeroStep, init_state)
   \<and> run_from (table_eval [(''1'', Num 1), (''5'', Num 5), (''0'', Num 0)]) (Suc 0)
     [''for i = 5 to 1 by 0 do'', ''  print i'', ''end''] 0 init_state = Some (Inl ZeroStep, init_state)"
proof -
  let ?ev = "table_eval [(''1'', Num 1), (''5'', Num 5), (''0'', Num 0)]"
  let ?p = "[''for i = 5 to 1 by 0 do'', ''  print i'', ''end'']"
  have 1: "0 < length ?p" by simp
  have 2: "classify (rstrip (?p ! 0)) = Counter ''i'' ''5'' ''1'' (Some ''0'')" by code_simp
  have 3: "''0'' \<noteq> []" by simp
  have 4: "?ev ''5'' init_state = (Inr (VInt 5), init_state)" by (simp add: table_eval_def)
  have 5: "?ev ''1'' init_state = (Inr (VInt 1), init_state)" by (simp add: table_eval_def)
  have 6: "?ev ''0'' init_state = (Inr (VInt 0), init_state)" by (simp add: table_eval_def)
  have 7: "to_num (VInt 0) = Some 0" by simp
  show ?thesis
    by (rule zero_step_fails [where ev = ?ev and lines = ?p and s = init_state, OF 1 2 3 4 5 6 7])
qed

text \<open>
  \<^bold>\<open>C8.\<close>  The specification wants a terminator met outside any open loop to make
  the run fail.  It does not: \<^verbatim>\<open>_exec_lines\<close> returns the index of that line, and
  the loop of \<^verbatim>\<open>run\<close> adds one and goes on.  The program \<^verbatim>\<open>end\<close>, \<^verbatim>\<open>print 1\<close>
  runs to its end and prints 1.
\<close>

theorem stray_end_counterexample:
  "outcome (run (table_eval [(''1'', Num 1)]) 3 [''end'', ''print 1'']) = Some (Inr (), [VInt 1])"
  by code_simp

text \<open>
  \<^bold>\<open>C8, as the code has it.\<close>  At a terminator line \<^verbatim>\<open>_exec_lines\<close> returns the index
  of the line with the state unchanged and no error, and the loop of \<^verbatim>\<open>run\<close> goes on
  with the line that follows.
\<close>

theorem stray_end_skipped:
  assumes "i < length lines" and "classify (rstrip (lines ! i)) = End"
  shows "exec_lines ev (Suc f) lines i s = Some (Inr i, s)
       \<and> run_from ev (Suc f) lines i s = run_block (exec_lines ev (Suc f)) f lines (i + 1) s"
  using assms by (simp add: exec_step_def run_from_def)

theorem stray_end_skipped_witness:
  "exec_lines (table_eval [(''1'', Num 1)]) (Suc 2) [''end'', ''print 1''] 0 init_state = Some (Inr 0, init_state)
   \<and> run_from (table_eval [(''1'', Num 1)]) (Suc 2) [''end'', ''print 1''] 0 init_state
     = run_block (exec_lines (table_eval [(''1'', Num 1)]) (Suc 2)) 2 [''end'', ''print 1''] (0 + 1) init_state"
proof -
  let ?p = "[''end'', ''print 1'']"
  have 1: "0 < length ?p" by simp
  have 2: "classify (rstrip (?p ! 0)) = End" by code_simp
  show ?thesis by (rule stray_end_skipped [where lines = ?p, OF 1 2])
qed

text \<open>
  A line that matches nothing stops \<^verbatim>\<open>_exec_lines\<close> with an error that carries the
  index of the line in the list of lines it was given, plus one, and the line without
  its trailing white space.
\<close>

lemma unrecognized_line:
  assumes "i < length lines" and "classify (rstrip (lines ! i)) = NoMatch"
  shows "exec_lines ev (Suc f) lines i s = Some (Inl (Unrecognized (i + 1) (rstrip (lines ! i))), s)"
  using assms by (simp add: exec_step_def)

text \<open>
  \<^bold>\<open>C7.\<close>  An unrecognised line is to be reported with its 1-based position in the
  program text.  At top level the list of lines is the program text and the number is
  right.  Inside a loop body \<^verbatim>\<open>_run_block\<close> hands \<^verbatim>\<open>_exec_lines\<close> the block, so
  the number counts from the start of the block, not from the start of the text.
  Below, the offending line is line 3 of the program and the error says 1.
\<close>

theorem unrecognized_in_body_line_number:
  "outcome (run (table_eval [(''0'', Num 0), (''1'', Num 1)]) 4
      [''x = 0'', ''for i = 1 to 1 do'', ''  bogus'', ''end''])
   = Some (Inl (Unrecognized 1 ''  bogus''), [])"
  by code_simp

text \<open>
  \<^bold>\<open>C5.\<close>  The specification has every header with no matching terminator fail
  with the missing-terminator error.  A counter header evaluates its expressions and
  checks the step before it looks for the terminator, so the unterminated loop below
  fails with the zero-step error instead.
\<close>

theorem missing_end_counterexample:
  "collect_block [''for i = 1 to 2 by 0 do'', ''  print i''] 1 = Inl MissingEnd
   \<and> outcome (run (table_eval [(''0'', Num 0), (''1'', Num 1), (''2'', Num 2)]) 4
        [''for i = 1 to 2 by 0 do'', ''  print i'']) = Some (Inl ZeroStep, [])"
  by code_simp

text \<open>
  \<^bold>\<open>C5, as the code has it.\<close>  Let the lines after a header hold no matching
  terminator.  A C-style header fails with the missing-terminator error at once, in the
  state it was reached in.  An iterator header does so once its collection expression
  has been evaluated, and a counter header once start, end and step have been evaluated
  and the step found not to be zero; the state at the failure is the one these
  evaluations left.  So no line of the body has run.  The error ends the run there:
  no later line runs.
\<close>

theorem missing_end_detected:
  assumes "i < length lines" and "collect_block lines (i + 1) = Inl MissingEnd"
  shows "(classify (rstrip (lines ! i)) = CStyle init_s cond_s step_s
            \<longrightarrow> exec_lines ev (Suc f) lines i s = Some (Inl MissingEnd, s))
       \<and> (classify (rstrip (lines ! i)) = Iter var expr \<and> ev expr s = (Inr it, s1)
            \<longrightarrow> exec_lines ev (Suc f) lines i s = Some (Inl MissingEnd, s1))
       \<and> (classify (rstrip (lines ! i)) = Counter var start_s end_s step_o
            \<and> counter_header ev start_s end_s step_o s = (Inr h, s1)
            \<longrightarrow> exec_lines ev (Suc f) lines i s = Some (Inl MissingEnd, s1))
       \<and> (\<forall>e t. exec_lines ev (Suc f) lines i s = Some (Inl e, t)
            \<longrightarrow> run_from ev (Suc f) lines i s = Some (Inl e, t))"
  using assms by (auto simp add: exec_step_def run_from_def)

theorem missing_end_detected_witness:
  "exec_lines (table_eval [(''1'', Num 1), (''2'', Num 2)]) (Suc 3)
     [''for (;;) do'', ''print 1''] 0 init_state = Some (Inl MissingEnd, init_state)
   \<and> exec_lines (table_eval [(''1'', Num 1), (''2'', Num 2)]) (Suc 3)
     [''for i in 1 do'', ''print 1''] 0 init_state = Some (Inl MissingEnd, init_state)
   \<and> exec_lines (table_eval [(''1'', Num 1), (''2'', Num 2)]) (Suc 3)
     [''for i = 1 to 2 do'', ''print 1''] 0 init_state = Some (Inl MissingEnd, init_state)
   \<and> run_from (table_eval [(''1'', Num 1), (''2'', Num 2)]) (Suc 3)
     [''for i = 1 to 2 do'', ''print 1''] 0 init_state = Some (Inl MissingEnd, init_state)"
proof -
  let ?ev = "table_eval [(''1'', Num 1), (''2'', Num 2)]"
  let ?c = "[''for (;;) do'', ''print 1'']"
  let ?i = "[''for i in 1 do'', ''print 1'']"
  let ?n = "[''for i = 1 to 2 do'', ''print 1'']"
  have c1: "0 < length ?c" and i1: "0 < length ?i" and n1: "0 < length ?n" by simp_all
  have c2: "collect_block ?c (0 + 1) = Inl MissingEnd" by code_simp
  have i2: "collect_block ?i (0 + 1) = Inl MissingEnd" by code_simp
  have n2: "collect_block ?n (0 + 1) = Inl MissingEnd" by code_simp
  have c3: "classify (rstrip (?c ! 0)) = CStyle [] [] []" by code_simp
  have i3: "classify (rstrip (?i ! 0)) = Iter ''i'' ''1''" by code_simp
  have n3: "classify (rstrip (?n ! 0)) = Counter ''i'' ''1'' ''2'' None" by code_simp
  have i4: "?ev ''1'' init_state = (Inr (VInt 1), init_state)" by (simp add: table_eval_def)
  have n4: "counter_header ?ev ''1'' ''2'' None init_state = (Inr (VInt 1, VInt 2, VInt 1), init_state)"
    by (simp add: counter_header_def table_eval_def)
  note c = missing_end_detected [where ev = ?ev and lines = ?c and s = init_state and f = 3, OF c1 c2]
  note i = missing_end_detected [where ev = ?ev and lines = ?i and s = init_state and f = 3, OF i1 i2]
  note n = missing_end_detected [where ev = ?ev and lines = ?n and s = init_state and f = 3, OF n1 n2]
  show ?thesis
    using c c3 i i3 i4 n n3 n4 by (simp del: exec_lines.simps)
qed

text \<open>
  \<^bold>\<open>C10.\<close>  Header evaluation and terminator matching come in a different order for
  the three forms.  A counter header that fails in one of its expressions or in the
  zero-step check, and an iterator header whose collection expression fails, report
  that error whether or not a terminator follows.  A C-style header looks for the
  terminator first: without one it reports the missing terminator in an untouched state,
  and its init clause runs, and can fail, only once the terminator has been found.
\<close>

theorem header_before_terminator:
  assumes "i < length lines"
  shows "(classify (rstrip (lines ! i)) = Counter var start_s end_s step_o
            \<and> counter_header ev start_s end_s step_o s = (Inl e, s1)
            \<longrightarrow> exec_lines ev (Suc f) lines i s = Some (Inl e, s1))
       \<and> (classify (rstrip (lines ! i)) = Iter var expr \<and> ev expr s = (Inl e, s1)
            \<longrightarrow> exec_lines ev (Suc f) lines i s = Some (Inl e, s1))
       \<and> (classify (rstrip (lines ! i)) = CStyle init_s cond_s step_s
            \<and> collect_block lines (i + 1) = Inl e
            \<longrightarrow> exec_lines ev (Suc f) lines i s = Some (Inl e, s))
       \<and> (classify (rstrip (lines ! i)) = CStyle init_s cond_s step_s
            \<and> collect_block lines (i + 1) = Inr (block, j)
            \<and> run_clause ev (do_assign init_s) s = (Inl e, s1)
            \<longrightarrow> exec_lines ev (Suc f) lines i s = Some (Inl e, s1))"
  using assms by (auto simp add: exec_step_def)

theorem header_before_terminator_witness:
  "exec_lines (table_eval [(''0'', Num 0), (''1'', Num 1)]) (Suc 3)
     [''for i = 1 to 1 by 0 do'', ''print 1''] 0 init_state = Some (Inl ZeroStep, init_state)
   \<and> exec_lines (table_eval [(''0'', Num 0), (''1'', Num 1)]) (Suc 3)
     [''for i = 1 to n do'', ''print 1''] 0 init_state = Some (Inl (EvalError ''n''), init_state)
   \<and> exec_lines (table_eval [(''0'', Num 0), (''1'', Num 1)]) (Suc 3)
     [''for i in n do'', ''print 1''] 0 init_state = Some (Inl (EvalError ''n''), init_state)
   \<and> exec_lines (table_eval [(''0'', Num 0), (''1'', Num 1)]) (Suc 3)
     [''for (i = n; ; ) do'', ''print 1''] 0 init_state = Some (Inl MissingEnd, init_state)
   \<and> exec_lines (table_eval [(''0'', Num 0), (''1'', Num 1)]) (Suc 3)
     [''for (i = n; ; ) do'', ''print 1'', ''end''] 0 init_state
       = Some (Inl (EvalError ''n''), init_state)"
proof -
  let ?ev = "table_eval [(''0'', Num 0), (''1'', Num 1)]"
  let ?z = "[''for i = 1 to 1 by 0 do'', ''print 1'']"
  let ?n = "[''for i = 1 to n do'', ''print 1'']"
  let ?i = "[''for i in n do'', ''print 1'']"
  let ?c = "[''for (i = n; ; ) do'', ''print 1'']"
  let ?d = "[''for (i = n; ; ) do'', ''print 1'', ''end'']"
  have z1: "0 < length ?z" and n1: "0 < length ?n" and i1: "0 < length ?i"
    and c1: "0 < length ?c" and d1: "0 < length ?d" by simp_all
  have z2: "classify (rstrip (?z ! 0)) = Counter ''i'' ''1'' ''1'' (Some ''0'')" by code_simp
  have n2: "classify (rstrip (?n ! 0)) = Counter ''i'' ''1'' ''n'' None" by code_simp
  have i2: "classify (rstrip (?i ! 0)) = Iter ''i'' ''n''" by code_simp
  have c2: "classify (rstrip (?c ! 0)) = CStyle ''i = n'' [] []" by code_simp
  have d2: "classify (rstrip (?d ! 0)) = CStyle ''i = n'' [] []" by code_simp
  have z3: "counter_header ?ev ''1'' ''1'' (Some ''0'') init_state = (Inl ZeroStep, init_state)"
    by (simp add: counter_header_def table_eval_def)
  have n3: "counter_header ?ev ''1'' ''n'' None init_state = (Inl (EvalError ''n''), init_state)"
    by (simp add: counter_header_def table_eval_def)
  have i3: "?ev ''n'' init_state = (Inl (EvalError ''n''), init_state)"
    by (simp add: table_eval_def)
  have c3: "collect_block ?c (0 + 1) = Inl MissingEnd" by code_simp
  have d3: "collect_block ?d (0 + 1) = Inr ([''print 1''], 3)" by code_simp
  have da: "do_assign ''i = n'' = AssignClause ''i'' ''n''" by code_simp
  have d4: "run_clause ?ev (do_assign ''i = n'') init_state = (Inl (EvalError ''n''), init_state)"
    unfolding da by (simp add: run_clause_def table_eval_def)
  note z = header_before_terminator [where ev = ?ev and lines = ?z and s = init_state and f = 3, OF z1]
  note n = header_before_terminator [where ev = ?ev and lines = ?n and s = init_state and f = 3, OF n1]
  note i = header_before_terminator [where ev = ?ev and lines = ?i and s = init_state and f = 3, OF i1]
  note c = header_before_terminator [where ev = ?ev and lines = ?c and s = init_state and f = 3, OF c1]
  note d = header_before_terminator [where ev = ?ev and lines = ?d and s = init_state and f = 3, OF d1]
  show ?thesis
    using z z2 z3 n n2 n3 i i2 i3 c c2 c3 d d2 d3 d4 by (simp del: exec_lines.simps)
qed

section \<open>The block matcher finds the matching terminator\<close>

text \<open>
  A header line and a terminator line differ in their first character that is not white
  space, so no line is both.
\<close>

lemma lower_space: "is_space d \<Longrightarrow> lower d = d"
  by (auto simp add: is_space_def lower_def Let_def)

lemma rx_rep_space_lit:
  assumes "rx_rep Space True 0 inp (\<lambda>rest. case rx_lit True (c # p) rest of None \<Rightarrow> None | Some t \<Rightarrow> K t) = Some r"
    and "\<not> is_space (lower c)"
  shows "\<exists>d t. dropWhile is_space inp = d # t \<and> lower d = lower c"
  using assms(1)
proof (induction inp)
  case Nil
  then show ?case by simp
next
  case (Cons d ds)
  show ?case
  proof (cases "is_space d")
    case True
    then have ne: "lower c \<noteq> lower d" using assms(2) lower_space by metis
    from Cons.prems True ne
    have "rx_rep Space True 0 ds (\<lambda>rest. case rx_lit True (c # p) rest of None \<Rightarrow> None | Some t \<Rightarrow> K t) = Some r"
      by (simp split: option.splits)
    then show ?thesis using Cons.IH True by simp
  next
    case False
    with Cons.prems have "lower c = lower d"
      by (simp split: option.splits if_splits)
    with False show ?thesis by simp
  qed
qed

lemma re_match_first_char:
  assumes "re_match True (ws0 # Lit (c # p) # rest) line \<noteq> None"
    and "\<not> is_space (lower c)"
  shows "\<exists>d t. dropWhile is_space line = d # t \<and> lower d = lower c"
proof -
  from assms(1) obtain g where "re_match True (ws0 # Lit (c # p) # rest) line = Some g" by auto
  then have "rx_rep Space True 0 line
      (\<lambda>r. case rx_lit True (c # p) r of None \<Rightarrow> None
            | Some t \<Rightarrow> rx_seq True rest t [] (\<lambda>rest g. Some g)) = Some g"
    by (simp add: re_match_def)
  then show ?thesis using assms(2) by (rule rx_rep_space_lit)
qed

lemma is_header_first_char:
  assumes "is_header line"
  shows "\<exists>d t. dropWhile is_space line = d # t \<and> lower d = CHR ''f''"
proof -
  have f: "\<not> is_space (lower CHR ''f'')" "lower CHR ''f'' = CHR ''f''"
    by (simp_all add: is_space_def lower_def)
  from assms consider "re_match True RX_FOR_COUNTER line \<noteq> None"
    | "re_match True RX_FOR_ITER line \<noteq> None" | "re_match True RX_FOR_CSTYLE line \<noteq> None"
    unfolding is_header_def by blast
  then show ?thesis
  proof cases
    case 1
    then show ?thesis
      unfolding RX_FOR_COUNTER_def using re_match_first_char [OF _ f(1)] f(2) by metis
  next
    case 2
    then show ?thesis
      unfolding RX_FOR_ITER_def using re_match_first_char [OF _ f(1)] f(2) by metis
  next
    case 3
    then show ?thesis
      unfolding RX_FOR_CSTYLE_def using re_match_first_char [OF _ f(1)] f(2) by metis
  qed
qed

lemma is_end_first_char:
  assumes "is_end line"
  shows "\<exists>d t. dropWhile is_space line = d # t \<and> lower d = CHR ''e''"
proof -
  have e: "\<not> is_space (lower CHR ''e'')" "lower CHR ''e'' = CHR ''e''"
    by (simp_all add: is_space_def lower_def)
  from assms have "re_match True RX_END line \<noteq> None" by (simp add: is_end_def)
  then show ?thesis
    unfolding RX_END_def using re_match_first_char [OF _ e(1)] e(2) by metis
qed

lemma end_not_header: "is_end line \<Longrightarrow> \<not> is_header line"
  using is_end_first_char is_header_first_char by fastforce


lemma depth_after_start: "depth_after lines i i = 1"
  by (simp add: depth_after_def)

lemma depth_after_Suc:
  assumes "i \<le> k" and "k < length lines"
  shows "depth_after lines i (Suc k) =
           depth_after lines i k + (if is_header (lines ! k) then 1 else 0)
             - (if is_end (lines ! k) then 1 else 0)"
proof -
  have "take (Suc k - i) (drop i lines) = take (k - i) (drop i lines) @ [lines ! k]"
    using assms by (simp add: Suc_diff_le take_Suc_conv_app_nth)
  then show ?thesis by (simp add: depth_after_def)
qed

lemma block_Suc:
  assumes "i \<le> k" and "k < length lines"
  shows "take (Suc k - i) (drop i lines) = take (k - i) (drop i lines) @ [lines ! k]"
  using assms by (simp add: Suc_diff_le take_Suc_conv_app_nth)

lemma collect_loop_found:
  assumes "collect_loop lines k d blk = Inr (block, j)"
    and "i \<le> k" and "d = depth_after lines i k" and "0 < d"
    and "blk = take (k - i) (drop i lines)"
  shows "k < j \<and> j \<le> length lines \<and> depth_after lines i j = 0
       \<and> (\<forall>m. k \<le> m \<and> m < j \<longrightarrow> 0 < depth_after lines i m)
       \<and> block = take (j - 1 - i) (drop i lines) \<and> is_end (lines ! (j - 1))"
  using assms
proof (induction lines k d blk rule: collect_loop.induct)
  case (1 lines k d blk)
  from "1.prems"(1) have len: "k < length lines"
    by (subst (asm) collect_loop.simps) (simp split: if_splits)
  let ?d1 = "if is_header (lines ! k) then d + 1 else d"
  note dS = depth_after_Suc [OF "1.prems"(2) len]
  note bS = block_Suc [OF "1.prems"(2) len]
  show ?case
  proof (cases "is_end (lines ! k)")
    case True
    show ?thesis
    proof (cases "?d1 - 1 = 0")
      case z: True
      with True len "1.prems"(1) have "block = blk" "j = k + 1"
        by (subst (asm) collect_loop.simps, simp add: Let_def)+
      moreover have "depth_after lines i (Suc k) = 0"
        using dS True z "1.prems"(3) by (simp split: if_splits)
      moreover have "\<forall>m. k \<le> m \<and> m < k + 1 \<longrightarrow> 0 < depth_after lines i m"
      proof (intro allI impI)
        fix m assume "k \<le> m \<and> m < k + 1"
        then have "m = k" by simp
        then show "0 < depth_after lines i m" using "1.prems"(3,4) by simp
      qed
      ultimately show ?thesis
        using len True "1.prems"(2,5) by simp
    next
      case nz: False
      with True len "1.prems"(1)
      have rec: "collect_loop lines (k + 1) (?d1 - 1) (blk @ [lines ! k]) = Inr (block, j)"
        by (subst (asm) collect_loop.simps) (simp add: Let_def)
      have d': "?d1 - 1 = depth_after lines i (k + 1)"
        using dS True "1.prems"(3) by (simp split: if_splits)
      have pos: "0 < ?d1 - 1" using nz "1.prems"(4) by (simp split: if_splits)
      have b': "blk @ [lines ! k] = take (k + 1 - i) (drop i lines)"
        using bS "1.prems"(5) by simp
      have ih: "k + 1 < j \<and> j \<le> length lines \<and> depth_after lines i j = 0
          \<and> (\<forall>m. k + 1 \<le> m \<and> m < j \<longrightarrow> 0 < depth_after lines i m)
          \<and> block = take (j - 1 - i) (drop i lines) \<and> is_end (lines ! (j - 1))"
        using "1.IH"(1) [OF len refl True nz rec _ d' pos b'] "1.prems"(2) by simp
      have "\<And>m. k \<le> m \<Longrightarrow> m < j \<Longrightarrow> 0 < depth_after lines i m"
      proof -
        fix m assume "k \<le> m" "m < j"
        then consider "m = k" | "k + 1 \<le> m" by linarith
        then show "0 < depth_after lines i m"
          using ih \<open>m < j\<close> "1.prems"(3,4) by cases auto
      qed
      with ih show ?thesis by auto
    qed
  next
    case False
    with len "1.prems"(1)
    have rec: "collect_loop lines (k + 1) ?d1 (blk @ [lines ! k]) = Inr (block, j)"
      by (subst (asm) collect_loop.simps) (simp add: Let_def)
    have d': "?d1 = depth_after lines i (k + 1)"
      using dS False "1.prems"(3) by (simp split: if_splits)
    have pos: "0 < ?d1" using "1.prems"(4) by (simp split: if_splits)
    have b': "blk @ [lines ! k] = take (k + 1 - i) (drop i lines)"
      using bS "1.prems"(5) by simp
    have ih: "k + 1 < j \<and> j \<le> length lines \<and> depth_after lines i j = 0
        \<and> (\<forall>m. k + 1 \<le> m \<and> m < j \<longrightarrow> 0 < depth_after lines i m)
        \<and> block = take (j - 1 - i) (drop i lines) \<and> is_end (lines ! (j - 1))"
      using "1.IH"(2) [OF len refl False rec _ d' pos b'] "1.prems"(2) by simp
    have "\<And>m. k \<le> m \<Longrightarrow> m < j \<Longrightarrow> 0 < depth_after lines i m"
    proof -
      fix m assume "k \<le> m" "m < j"
      then consider "m = k" | "k + 1 \<le> m" by linarith
      then show "0 < depth_after lines i m"
        using ih \<open>m < j\<close> "1.prems"(3,4) by cases auto
    qed
    with ih show ?thesis by auto
  qed
qed


lemma collect_loop_missing:
  assumes "collect_loop lines k d blk = Inl e"
    and "i \<le> k" and "d = depth_after lines i k" and "0 < d"
  shows "e = MissingEnd \<and> (\<forall>m. k \<le> m \<and> m \<le> length lines \<longrightarrow> 0 < depth_after lines i m)"
  using assms
proof (induction lines k d blk rule: collect_loop.induct)
  case (1 lines k d blk)
  show ?case
  proof (cases "k < length lines")
    case False
    with "1.prems"(1) have "e = MissingEnd"
      by (subst (asm) collect_loop.simps) simp
    moreover have "\<forall>m. k \<le> m \<and> m \<le> length lines \<longrightarrow> 0 < depth_after lines i m"
    proof (intro allI impI)
      fix m assume "k \<le> m \<and> m \<le> length lines"
      with False have "m = k" by simp
      then show "0 < depth_after lines i m" using "1.prems"(3,4) by simp
    qed
    ultimately show ?thesis by simp
  next
    case len: True
    let ?d1 = "if is_header (lines ! k) then d + 1 else d"
    let ?d2 = "if is_end (lines ! k) then ?d1 - 1 else ?d1"
    note dS = depth_after_Suc [OF "1.prems"(2) len]
    have d': "?d2 = depth_after lines i (k + 1)"
      using dS "1.prems"(3) by (simp split: if_splits)
    have nz: "is_end (lines ! k) \<Longrightarrow> ?d1 - 1 \<noteq> 0"
      using "1.prems"(1) len by (subst (asm) collect_loop.simps) (auto simp add: Let_def)
    have pos: "0 < ?d2"
      using nz "1.prems"(4)
      by (cases "is_end (lines ! k)"; cases "is_header (lines ! k)"; simp; arith)
    have ih: "e = MissingEnd
        \<and> (\<forall>m. k + 1 \<le> m \<and> m \<le> length lines \<longrightarrow> 0 < depth_after lines i m)"
    proof (cases "is_end (lines ! k)")
      case True
      with len "1.prems"(1) nz
      have rec: "collect_loop lines (k + 1) (?d1 - 1) (blk @ [lines ! k]) = Inl e"
        by (subst (asm) collect_loop.simps) (simp add: Let_def)
      show ?thesis
        using "1.IH"(1) [OF len refl True nz [OF True] rec] d' pos True "1.prems"(2) by simp
    next
      case False
      with len "1.prems"(1)
      have rec: "collect_loop lines (k + 1) ?d1 (blk @ [lines ! k]) = Inl e"
        by (subst (asm) collect_loop.simps) (simp add: Let_def)
      show ?thesis
        using "1.IH"(2) [OF len refl False rec] d' pos False "1.prems"(2) by simp
    qed
    have "\<forall>m. k \<le> m \<and> m \<le> length lines \<longrightarrow> 0 < depth_after lines i m"
    proof (intro allI impI)
      fix m assume m: "k \<le> m \<and> m \<le> length lines"
      then consider "m = k" | "k + 1 \<le> m" by linarith
      then show "0 < depth_after lines i m"
        using ih m "1.prems"(3,4) by cases auto
    qed
    with ih show ?thesis by simp
  qed
qed

text \<open>
  \<^bold>\<open>C2.\<close>  Started on the line after a header, the block matcher returns a block
  and an index \<open>j\<close> exactly when \<open>j - 1\<close> is the first line at which the depth
  counter (1 at the start, plus one for a header line of any of the three forms, minus
  one for a terminator line) comes down to 0.  The block is then the lines from the start
  up to, and without, line \<open>j - 1\<close>, which is a terminator, and \<open>j\<close> is the index just
  past it.  Headers nested at any depth are thus paired with their own terminators.
  A terminator right after the header gives the empty block.
\<close>

theorem collect_block_matches:
  "(collect_block lines i = Inr (block, j)) =
     (i < j \<and> j \<le> length lines \<and> depth_after lines i j = 0
      \<and> (\<forall>k. i \<le> k \<and> k < j \<longrightarrow> 0 < depth_after lines i k)
      \<and> block = take (j - 1 - i) (drop i lines))
   \<and> (collect_block lines i = Inr (block, j) \<longrightarrow> is_end (lines ! (j - 1)))
   \<and> (i < length lines \<and> is_end (lines ! i) \<longrightarrow> collect_block lines i = Inr ([], i + 1))"
proof (intro conjI impI)
  have found: "\<And>b m. collect_block lines i = Inr (b, m) \<Longrightarrow>
      i < m \<and> m \<le> length lines \<and> depth_after lines i m = 0
      \<and> (\<forall>k. i \<le> k \<and> k < m \<longrightarrow> 0 < depth_after lines i k)
      \<and> b = take (m - 1 - i) (drop i lines) \<and> is_end (lines ! (m - 1))"
    unfolding collect_block_def
    by (rule collect_loop_found [where k = i and d = 1 and blk = "[]"])
      (simp_all add: depth_after_start)
  have missing: "\<And>e. collect_block lines i = Inl e \<Longrightarrow>
      (\<forall>m. i \<le> m \<and> m \<le> length lines \<longrightarrow> 0 < depth_after lines i m)"
    unfolding collect_block_def
    using collect_loop_missing [where k = i and d = 1 and i = i] depth_after_start
    by (metis order_refl zero_less_one)
  show "(collect_block lines i = Inr (block, j)) =
     (i < j \<and> j \<le> length lines \<and> depth_after lines i j = 0
      \<and> (\<forall>k. i \<le> k \<and> k < j \<longrightarrow> 0 < depth_after lines i k)
      \<and> block = take (j - 1 - i) (drop i lines))"
  proof
    assume "collect_block lines i = Inr (block, j)"
    then show "i < j \<and> j \<le> length lines \<and> depth_after lines i j = 0
      \<and> (\<forall>k. i \<le> k \<and> k < j \<longrightarrow> 0 < depth_after lines i k)
      \<and> block = take (j - 1 - i) (drop i lines)"
      using found by blast
  next
    assume r: "i < j \<and> j \<le> length lines \<and> depth_after lines i j = 0
      \<and> (\<forall>k. i \<le> k \<and> k < j \<longrightarrow> 0 < depth_after lines i k)
      \<and> block = take (j - 1 - i) (drop i lines)"
    show "collect_block lines i = Inr (block, j)"
    proof (cases "collect_block lines i")
      case (Inl e)
      from r have "i \<le> j \<and> j \<le> length lines" by simp
      with missing [OF Inl] have "0 < depth_after lines i j" by blast
      with r show ?thesis by simp
    next
      case (Inr p)
      obtain b m where p: "p = (b, m)" by (cases p)
      note f = found [OF Inr [unfolded p]]
      have "\<not> m < j"
      proof
        assume "m < j"
        moreover from f have "i \<le> m" by simp
        ultimately have "0 < depth_after lines i m" using r by blast
        with f show False by simp
      qed
      moreover have "\<not> j < m"
      proof
        assume "j < m"
        moreover from r have "i \<le> j" by simp
        ultimately have "0 < depth_after lines i j" using f by blast
        with r show False by simp
      qed
      ultimately have "m = j" by simp
      with f r Inr p show ?thesis by simp
    qed
  qed
next
  assume "collect_block lines i = Inr (block, j)"
  then show "is_end (lines ! (j - 1))"
    unfolding collect_block_def
    using collect_loop_found [where k = i and d = 1 and blk = "[]" and i = i] depth_after_start
    by (metis diff_self_eq_0 order_refl take_0 zero_less_one)
next
  assume a: "i < length lines \<and> is_end (lines ! i)"
  then have "\<not> is_header (lines ! i)" by (simp add: end_not_header)
  with a show "collect_block lines i = Inr ([], i + 1)"
    unfolding collect_block_def by (subst collect_loop.simps) simp
qed

theorem collect_block_matches_witness:
  "collect_block
     [''for i = 1 to 2 do'', ''  for j = 1 to 2 do'', ''    print j'', ''  end'', ''end'',
      ''for (k = 0; k < 2; k = k + 1) do'', ''  for w in xs do'', ''    print w'', ''  end'', ''end''] 1
     = Inr ([''  for j = 1 to 2 do'', ''    print j'', ''  end''], 5)
   \<and> depth_after
     [''for i = 1 to 2 do'', ''  for j = 1 to 2 do'', ''    print j'', ''  end'', ''end'',
      ''for (k = 0; k < 2; k = k + 1) do'', ''  for w in xs do'', ''    print w'', ''  end'', ''end''] 1 5 = 0
   \<and> is_end ([''for i = 1 to 2 do'', ''  for j = 1 to 2 do'', ''    print j'', ''  end'', ''end'',
      ''for (k = 0; k < 2; k = k + 1) do'', ''  for w in xs do'', ''    print w'', ''  end'', ''end''] ! (5 - 1))
   \<and> collect_block
     [''for i = 1 to 2 do'', ''  for j = 1 to 2 do'', ''    print j'', ''  end'', ''end'',
      ''for (k = 0; k < 2; k = k + 1) do'', ''  for w in xs do'', ''    print w'', ''  end'', ''end''] 6
     = Inr ([''  for w in xs do'', ''    print w'', ''  end''], 10)
   \<and> collect_block [''for (;;) do'', ''end'', ''print 1''] 1 = Inr ([], 1 + 1)"
proof -
  let ?p = "[''for i = 1 to 2 do'', ''  for j = 1 to 2 do'', ''    print j'', ''  end'', ''end'',
      ''for (k = 0; k < 2; k = k + 1) do'', ''  for w in xs do'', ''    print w'', ''  end'', ''end'']"
  let ?q = "[''for (;;) do'', ''end'', ''print 1'']"
  have 1: "collect_block ?p 1 = Inr ([''  for j = 1 to 2 do'', ''    print j'', ''  end''], 5)"
    by code_simp
  have 2: "collect_block ?p 6 = Inr ([''  for w in xs do'', ''    print w'', ''  end''], 10)"
    by code_simp
  have 3: "1 < length ?q \<and> is_end (?q ! 1)" by code_simp
  show ?thesis
    using 1 2
      collect_block_matches [of ?p 1 "[''  for j = 1 to 2 do'', ''    print j'', ''  end'']" 5]
      collect_block_matches [of ?q 1] 3
    by (simp del: One_nat_def)
qed

section \<open>Counter loops\<close>

text \<open>
  How many values the progression \<open>a, a + st, ...\<close> has before it passes \<open>b\<close>, and
  the loop of the counter form read as a loop over these values.
\<close>

lemma cnt_step:
  assumes "0 < (t::int)" and "0 \<le> d"
  shows "nat (d div t + 1) = Suc (nat ((d - t) div t + 1))"
proof -
  have "d div t = (d - t + t) div t" by simp
  also have "\<dots> = (d - t) div t + 1" using assms(1) by (subst div_add_self2) simp_all
  finally have eq: "d div t = (d - t) div t + 1" .
  have "0 \<le> d div t" using assms by (simp add: pos_imp_zdiv_nonneg_iff)
  with eq show ?thesis by simp
qed

lemma cnt_zero:
  assumes "0 < (t::int)" and "d < 0"
  shows "nat (d div t + 1) = 0"
proof -
  have "d div t < 0" using assms by (simp add: neg_imp_zdiv_neg_iff div_neg_pos_less0)
  then show ?thesis by simp
qed

lemma count_up_step: "0 < st \<Longrightarrow> a \<le> b \<Longrightarrow> counter_count a b st = Suc (counter_count (a + st) b st)"
  using cnt_step [of st "b - a"] by (simp add: counter_count_def algebra_simps)

lemma count_up_zero: "0 < st \<Longrightarrow> b < a \<Longrightarrow> counter_count a b st = 0"
  using cnt_zero [of st "b - a"] by (simp add: counter_count_def)

lemma count_down_step: "st < 0 \<Longrightarrow> b \<le> a \<Longrightarrow> counter_count a b st = Suc (counter_count (a + st) b st)"
  using cnt_step [of "- st" "a - b"] by (simp add: counter_count_def algebra_simps)

lemma count_down_zero: "st < 0 \<Longrightarrow> a < b \<Longrightarrow> counter_count a b st = 0"
  using cnt_zero [of "- st" "a - b"] by (simp add: counter_count_def)

lemma count_up_iff: "0 < st \<Longrightarrow> (k < counter_count a b st) = (a + int k * st \<le> b)"
proof (induction k arbitrary: a)
  case 0
  then show ?case
    by (cases "a \<le> b") (simp_all add: count_up_step count_up_zero)
next
  case (Suc k)
  show ?case
  proof (cases "a \<le> b")
    case True
    then show ?thesis
      using Suc.IH [OF Suc.prems, of "a + st"] Suc.prems
      by (simp add: count_up_step algebra_simps)
  next
    case False
    have "0 \<le> int (Suc k) * st" using Suc.prems by simp
    with False have "\<not> a + int (Suc k) * st \<le> b" by linarith
    moreover have "\<not> Suc k < counter_count a b st"
      using False Suc.prems by (simp add: count_up_zero)
    ultimately show ?thesis by blast
  qed
qed

lemma count_down_iff: "st < 0 \<Longrightarrow> (k < counter_count a b st) = (b \<le> a + int k * st)"
proof (induction k arbitrary: a)
  case 0
  then show ?case
    by (cases "b \<le> a") (simp_all add: count_down_step count_down_zero)
next
  case (Suc k)
  show ?case
  proof (cases "b \<le> a")
    case True
    then show ?thesis
      using Suc.IH [OF Suc.prems, of "a + st"] Suc.prems
      by (simp add: count_down_step algebra_simps)
  next
    case False
    have "int (Suc k) * st \<le> 0" using Suc.prems by (simp add: mult_nonneg_nonpos)
    with False have "\<not> b \<le> a + int (Suc k) * st" by linarith
    moreover have "\<not> Suc k < counter_count a b st"
      using False Suc.prems by (simp add: count_down_zero)
    ultimately show ?thesis by blast
  qed
qed

lemma values_shift:
  "map (\<lambda>k. VInt (a + int k * st)) [0 ..< Suc n]
     = VInt a # map (\<lambda>k. VInt (a + st + int k * st)) [0 ..< n]"
proof -
  have "[0 ..< Suc n] = 0 # map Suc [0 ..< n]"
    by (simp add: upt_conv_Cons map_Suc_upt del: upt_Suc)
  then show ?thesis by (simp add: algebra_simps comp_def del: upt_Suc)
qed

lemma values_up_Cons:
  "0 < st \<Longrightarrow> a \<le> b \<Longrightarrow> counter_values a b st = VInt a # counter_values (a + st) b st"
  unfolding counter_values_def by (simp only: count_up_step values_shift)

lemma values_up_Nil: "0 < st \<Longrightarrow> b < a \<Longrightarrow> counter_values a b st = []"
  by (simp add: counter_values_def count_up_zero)

lemma values_down_Cons:
  "st < 0 \<Longrightarrow> b \<le> a \<Longrightarrow> counter_values a b st = VInt a # counter_values (a + st) b st"
  unfolding counter_values_def by (simp only: count_down_step values_shift)

lemma values_down_Nil: "st < 0 \<Longrightarrow> a < b \<Longrightarrow> counter_values a b st = []"
  by (simp add: counter_values_def count_down_zero)

lemma py_le_int [simp]: "py_le (VInt a) (VInt b) = Inr (a \<le> b)"
  by (simp add: py_le_def)

lemma py_ge_int [simp]: "py_ge (VInt a) (VInt b) = Inr (b \<le> a)"
  by (simp add: py_ge_def)

lemma py_gt_int [simp]: "py_gt (VInt a) (VInt b) = Inr (b < a)"
  by (simp add: py_gt_def)

lemma counter_up_values:
  assumes "0 < st"
  shows "counter_up body k var (VInt a) (VInt b) (VInt st) s = Some r
         \<Longrightarrow> for_each body var (counter_values a b st) s = Some r"
proof (induction k arbitrary: a s)
  case 0
  then show ?case by simp
next
  case (Suc k)
  show ?case
  proof (cases "a \<le> b")
    case True
    with Suc.prems
    have "bind (body (bind_var var (VInt a) s))
            (\<lambda>_ s2. counter_up body k var (VInt (a + st)) (VInt b) (VInt st) s2) = Some r"
      by simp
    then have "bind (body (bind_var var (VInt a) s))
            (\<lambda>_ s2. for_each body var (counter_values (a + st) b st) s2) = Some r"
      by (rule bind_mono) (auto intro: Suc.IH)
    then show ?thesis using True assms by (simp add: values_up_Cons)
  next
    case False
    with Suc.prems assms show ?thesis by (simp add: values_up_Nil)
  qed
qed

lemma values_counter_up:
  assumes "0 < st"
  shows "for_each body var (counter_values a b st) s = Some r \<Longrightarrow> counter_count a b st < k
         \<Longrightarrow> counter_up body k var (VInt a) (VInt b) (VInt st) s = Some r"
proof (induction k arbitrary: a s)
  case 0
  then show ?case by simp
next
  case (Suc k)
  show ?case
  proof (cases "a \<le> b")
    case True
    with Suc.prems(1) assms
    have f: "bind (body (bind_var var (VInt a) s))
            (\<lambda>_ s2. for_each body var (counter_values (a + st) b st) s2) = Some r"
      by (simp add: values_up_Cons)
    have c: "counter_count (a + st) b st < k"
      using Suc.prems(2) True assms by (simp add: count_up_step)
    from f have "bind (body (bind_var var (VInt a) s))
            (\<lambda>_ s2. counter_up body k var (VInt (a + st)) (VInt b) (VInt st) s2) = Some r"
      by (rule bind_mono) (assumption, erule Suc.IH, rule c)
    then show ?thesis using True by simp
  next
    case False
    with Suc.prems(1) assms show ?thesis by (simp add: values_up_Nil)
  qed
qed

lemma counter_down_values:
  assumes "st < 0"
  shows "counter_down body k var (VInt a) (VInt b) (VInt st) s = Some r
         \<Longrightarrow> for_each body var (counter_values a b st) s = Some r"
proof (induction k arbitrary: a s)
  case 0
  then show ?case by simp
next
  case (Suc k)
  show ?case
  proof (cases "b \<le> a")
    case True
    with Suc.prems
    have "bind (body (bind_var var (VInt a) s))
            (\<lambda>_ s2. counter_down body k var (VInt (a + st)) (VInt b) (VInt st) s2) = Some r"
      by simp
    then have "bind (body (bind_var var (VInt a) s))
            (\<lambda>_ s2. for_each body var (counter_values (a + st) b st) s2) = Some r"
      by (rule bind_mono) (auto intro: Suc.IH)
    then show ?thesis using True assms by (simp add: values_down_Cons)
  next
    case False
    with Suc.prems assms show ?thesis by (simp add: values_down_Nil)
  qed
qed

lemma values_counter_down:
  assumes "st < 0"
  shows "for_each body var (counter_values a b st) s = Some r \<Longrightarrow> counter_count a b st < k
         \<Longrightarrow> counter_down body k var (VInt a) (VInt b) (VInt st) s = Some r"
proof (induction k arbitrary: a s)
  case 0
  then show ?case by simp
next
  case (Suc k)
  show ?case
  proof (cases "b \<le> a")
    case True
    with Suc.prems(1) assms
    have f: "bind (body (bind_var var (VInt a) s))
            (\<lambda>_ s2. for_each body var (counter_values (a + st) b st) s2) = Some r"
      by (simp add: values_down_Cons)
    have c: "counter_count (a + st) b st < k"
      using Suc.prems(2) True assms by (simp add: count_down_step)
    from f have "bind (body (bind_var var (VInt a) s))
            (\<lambda>_ s2. counter_down body k var (VInt (a + st)) (VInt b) (VInt st) s2) = Some r"
      by (rule bind_mono) (assumption, erule Suc.IH, rule c)
    then show ?thesis using True by simp
  next
    case False
    with Suc.prems(1) assms show ?thesis by (simp add: values_down_Nil)
  qed
qed


lemma counter_header_step:
  assumes "counter_header ev start_s end_s step_o s = (Inr (x, y, z), s1)"
  shows "\<not> py_eq z (VInt 0)" and "step_o = None \<Longrightarrow> z = VInt 1"
  using assms
  by (auto simp add: counter_header_def split: prod.splits sum.splits option.splits if_splits)

lemma exec_counter:
  assumes "i < length lines"
    and "classify (rstrip (lines ! i)) = Counter var start_s end_s step_o"
    and "counter_header ev start_s end_s step_o s = (Inr (VInt a, VInt b, VInt st), s1)"
    and "collect_block lines (i + 1) = Inr (block, j)"
  shows "exec_lines ev (Suc f) lines i s =
           bind (if 0 < st
                 then counter_up (run_block (exec_lines ev f) f block 0) f var (VInt a) (VInt b) (VInt st) s1
                 else counter_down (run_block (exec_lines ev f) f block 0) f var (VInt a) (VInt b) (VInt st) s1)
             (\<lambda>_ s'. exec_lines ev f lines j s')"
  using assms by (simp add: exec_step_def)

text \<open>
  \<^bold>\<open>C1.\<close>  Take a counter header whose start, end and step evaluate to the
  integers \<open>a\<close>, \<open>b\<close> and \<open>st\<close>, and whose block is found.  Then \<open>st\<close> is not
  zero, and it is 1 when \<^verbatim>\<open>by\<close> is left out.  The values \<open>a + k * st\<close> taken are
  exactly those with \<open>a + k * st \<le> b\<close> when \<open>st > 0\<close> and exactly those with
  \<open>a + k * st \<ge> b\<close> when \<open>st < 0\<close>, for \<open>k = 0, 1, 2, ...\<close>: none at all when
  \<open>a\<close> already lies beyond \<open>b\<close>.  Executing the header is the same as running the body
  once for each of these values in order, with the variable bound to the value first,
  and then going on after the terminator: whatever the first does with some fuel, the
  second does with the same fuel, and whatever the second does, the first does once it
  is given one unit of fuel more for each value and the final test.  The example
  \<^verbatim>\<open>for i = 1 to 5 by 2 do print i end\<close> prints 1, 3, 5.
\<close>

theorem counter_loop_values:
  assumes "i < length lines"
    and "classify (rstrip (lines ! i)) = Counter var start_s end_s step_o"
    and "counter_header ev start_s end_s step_o s = (Inr (VInt a, VInt b, VInt st), s1)"
    and "collect_block lines (i + 1) = Inr (block, j)"
  shows "st \<noteq> 0 \<and> (step_o = None \<longrightarrow> st = 1)
       \<and> (\<forall>k. (k < counter_count a b st)
                = (if 0 < st then a + int k * st \<le> b else b \<le> a + int k * st))
       \<and> (\<forall>f r. exec_lines ev (Suc f) lines i s = Some r \<longrightarrow>
             bind (for_each (run_block (exec_lines ev f) f block 0) var (counter_values a b st) s1)
               (\<lambda>_ s'. exec_lines ev f lines j s') = Some r)
       \<and> (\<forall>f r. bind (for_each (run_block (exec_lines ev f) f block 0) var (counter_values a b st) s1)
               (\<lambda>_ s'. exec_lines ev f lines j s') = Some r \<longrightarrow>
             exec_lines ev (Suc (f + counter_count a b st + 1)) lines i s = Some r)"
proof -
  have nz: "st \<noteq> 0" using counter_header_step(1) [OF assms(3)] by auto
  have one: "step_o = None \<longrightarrow> st = 1" using counter_header_step(2) [OF assms(3)] by auto
  have cnt: "\<forall>k. (k < counter_count a b st)
                = (if 0 < st then a + int k * st \<le> b else b \<le> a + int k * st)"
    using nz by (simp add: count_up_iff count_down_iff)
  have sound: "bind (for_each (run_block (exec_lines ev f) f block 0) var (counter_values a b st) s1)
               (\<lambda>_ s'. exec_lines ev f lines j s') = Some r"
    if run: "exec_lines ev (Suc f) lines i s = Some r" for f r
  proof (cases "0 < st")
    case True
    from run show ?thesis
      unfolding exec_counter [OF assms] using True
      by (simp only: if_True) (erule bind_mono, erule counter_up_values [OF True], assumption)
  next
    case False
    with nz have neg: "st < 0" by simp
    from run show ?thesis
      unfolding exec_counter [OF assms] using False
      by (simp only: if_False) (erule bind_mono, erule counter_down_values [OF neg], assumption)
  qed
  have complete: "exec_lines ev (Suc (f + counter_count a b st + 1)) lines i s = Some r"
    if run: "bind (for_each (run_block (exec_lines ev f) f block 0) var (counter_values a b st) s1)
               (\<lambda>_ s'. exec_lines ev f lines j s') = Some r" for f r
  proof -
    let ?F = "f + counter_count a b st + 1"
    have body: "\<And>t x. run_block (exec_lines ev f) f block 0 t = Some x
        \<Longrightarrow> run_block (exec_lines ev ?F) ?F block 0 t = Some x"
      by (erule body_mono) simp
    have loop: "\<And>x. for_each (run_block (exec_lines ev f) f block 0) var (counter_values a b st) s1 = Some x
        \<Longrightarrow> for_each (run_block (exec_lines ev ?F) ?F block 0) var (counter_values a b st) s1 = Some x"
      by (erule for_each_mono [rotated]) (erule body)
    have cont: "\<And>t. exec_lines ev f lines j t = Some r \<Longrightarrow> exec_lines ev ?F lines j t = Some r"
      by (erule exec_lines_mono [rotated]) simp
    show ?thesis
    proof (cases "0 < st")
      case True
      from run show ?thesis
        unfolding exec_counter [OF assms] using True
        by (simp only: if_True)
          (erule bind_mono, rule values_counter_up [OF True], erule loop, simp, erule cont)
    next
      case False
      with nz have neg: "st < 0" by simp
      from run show ?thesis
        unfolding exec_counter [OF assms] using False
        by (simp only: if_False)
          (erule bind_mono, rule values_counter_down [OF neg], erule loop, simp, erule cont)
    qed
  qed
  from nz one cnt sound complete show ?thesis by blast
qed


theorem counter_loop_values_witness:
  "counter_values 1 5 2 = [VInt 1, VInt 3, VInt 5]
   \<and> exec_lines (table_eval [(''1'', Num 1), (''2'', Num 2), (''5'', Num 5), (''i'', Var ''i'')])
       (Suc (Suc (Suc 0) + counter_count 1 5 2 + 1))
       [''for i = 1 to 5 by 2 do'', ''  print i'', ''end''] 0 init_state
     = Some (Inr 3, \<lparr>env = [''i'' \<mapsto> VInt 5], out = [VInt 1, VInt 3, VInt 5]\<rparr>)
   \<and> outcome (run (table_eval [(''1'', Num 1), (''2'', Num 2), (''5'', Num 5), (''i'', Var ''i'')]) 7
       [''for i = 1 to 5 by 2 do'', ''  print i'', ''end''])
     = Some (Inr (), [VInt 1, VInt 3, VInt 5])"
proof -
  let ?ev = "table_eval [(''1'', Num 1), (''2'', Num 2), (''5'', Num 5), (''i'', Var ''i'')]"
  let ?p = "[''for i = 1 to 5 by 2 do'', ''  print i'', ''end'']"
  let ?r = "(Inr 3, \<lparr>env = [''i'' \<mapsto> VInt 5], out = [VInt 1, VInt 3, VInt 5]\<rparr>)"
  have 1: "0 < length ?p" by simp
  have 2: "classify (rstrip (?p ! 0)) = Counter ''i'' ''1'' ''5'' (Some ''2'')" by code_simp
  have 3: "counter_header ?ev ''1'' ''5'' (Some ''2'') init_state
             = (Inr (VInt 1, VInt 5, VInt 2), init_state)"
    by (simp add: counter_header_def table_eval_def)
  have 4: "collect_block ?p (0 + 1) = Inr ([''  print i''], 3)" by code_simp
  have v: "counter_values 1 5 2 = [VInt 1, VInt 3, VInt 5]" by code_simp
  have c: "classify (rstrip ''  print i'') = Print ''i''" by code_simp
  have 5: "bind (for_each (run_block (exec_lines ?ev (Suc (Suc 0))) (Suc (Suc 0)) [''  print i''] 0)
                  ''i'' (counter_values 1 5 2) init_state)
             (\<lambda>_ s'. exec_lines ?ev (Suc (Suc 0)) ?p 3 s') = Some ?r"
    by (simp add: v c exec_step_def table_eval_def bind_var_def init_state_def)
  have o: "outcome (run ?ev 7 ?p) = Some (Inr (), [VInt 1, VInt 3, VInt 5])" by code_simp
  from counter_loop_values [where ev = ?ev and lines = ?p and s = init_state, OF 1 2 3 4] 5
  have "exec_lines ?ev (Suc (Suc (Suc 0) + counter_count 1 5 2 + 1)) ?p 0 init_state = Some ?r"
    by blast
  with v o show ?thesis by (simp del: exec_lines.simps)
qed

section \<open>Iterator loops\<close>

text \<open>
  A run of the loop over a collection, told as the list of states between the
  iterations: \<open>ss ! k\<close> is the state before the element \<open>k\<close> is bound.
\<close>

lemma for_each_chain:
  assumes "length ss = Suc (length elems)"
    and "\<forall>k<length elems. body (bind_var var (elems ! k) (ss ! k)) = Some (Inr (), ss ! Suc k)"
  shows "for_each body var elems (ss ! 0) = Some (Inr (), last ss)"
  using assms
proof (induction elems arbitrary: ss)
  case Nil
  then obtain s0 where "ss = [s0]" by (cases ss) auto
  then show ?case by simp
next
  case (Cons v vs)
  then obtain s0 ss' where ss: "ss = s0 # ss'" and len: "length ss' = Suc (length vs)"
    by (cases ss) auto
  from Cons.prems(2) have first: "body (bind_var var v s0) = Some (Inr (), ss' ! 0)"
    unfolding ss by (drule_tac x = 0 in spec) simp
  have rest: "\<forall>k<length vs. body (bind_var var (vs ! k) (ss' ! k)) = Some (Inr (), ss' ! Suc k)"
  proof (intro allI impI)
    fix k assume "k < length vs"
    then show "body (bind_var var (vs ! k) (ss' ! k)) = Some (Inr (), ss' ! Suc k)"
      using Cons.prems(2) unfolding ss by (drule_tac x = "Suc k" in spec) simp
  qed
  have "for_each body var vs (ss' ! 0) = Some (Inr (), last ss')"
    by (rule Cons.IH [OF len rest])
  moreover have "last ss = last ss'" using ss len by (cases ss') auto
  ultimately show ?case using first ss by simp
qed

text \<open>
  \<^bold>\<open>C4.\<close>  Take an iterator header whose expression evaluates to a collection with
  the elements \<open>elems\<close>, and whose block is found.  Let the body, started with the
  variable bound to element \<open>k\<close> in the state \<open>ss ! k\<close>, end normally in the state
  \<open>ss ! (k + 1)\<close>, for every \<open>k\<close>, where \<open>ss ! 0\<close> is the state the header
  expression left.  Then executing the header goes on after the terminator in the last
  of these states: the body has run once for each element, in the order of the
  collection, each time with the variable bound to the element first.  For the empty
  collection this is the state the header expression left, and no error.
\<close>

theorem iterator_loop_chain:
  assumes "i < length lines"
    and "classify (rstrip (lines ! i)) = Iter var expr"
    and "ev expr s = (Inr it, s1)"
    and "py_iter it = Inr elems"
    and "collect_block lines (i + 1) = Inr (block, j)"
    and "length ss = Suc (length elems)"
    and "ss ! 0 = s1"
    and "\<forall>k<length elems.
           run_block (exec_lines ev f) f block 0 (bind_var var (elems ! k) (ss ! k))
             = Some (Inr (), ss ! Suc k)"
  shows "exec_lines ev (Suc f) lines i s = exec_lines ev f lines j (last ss)"
proof -
  have "for_each (run_block (exec_lines ev f) f block 0) var elems s1 = Some (Inr (), last ss)"
    using for_each_chain [OF assms(6,8)] assms(7) by simp
  then show ?thesis using assms(1-5) by (simp add: exec_step_def)
qed

theorem iterator_loop_chain_witness:
  "exec_lines (table_eval [(''[10, 20]'', Val (VList [VInt 10, VInt 20])), (''w'', Var ''w'')])
       (Suc (Suc (Suc 0))) [''for w in [10, 20] do'', ''  print w'', ''end''] 0 init_state
     = Some (Inr 3, \<lparr>env = [''w'' \<mapsto> VInt 20], out = [VInt 10, VInt 20]\<rparr>)
   \<and> exec_lines (table_eval [(''[]'', Val (VList []))])
       (Suc (Suc (Suc 0))) [''for w in [] do'', ''  print w'', ''end''] 0 init_state
     = Some (Inr 3, init_state)"
proof -
  let ?ev = "table_eval [(''[10, 20]'', Val (VList [VInt 10, VInt 20])), (''w'', Var ''w'')]"
  let ?p = "[''for w in [10, 20] do'', ''  print w'', ''end'']"
  let ?ss = "[init_state, \<lparr>env = [''w'' \<mapsto> VInt 10], out = [VInt 10]\<rparr>,
              \<lparr>env = [''w'' \<mapsto> VInt 20], out = [VInt 10, VInt 20]\<rparr>]"
  let ?e = "table_eval [(''[]'', Val (VList []))]"
  let ?q = "[''for w in [] do'', ''  print w'', ''end'']"
  have c: "classify (rstrip ''  print w'') = Print ''w''" by code_simp
  have 1: "0 < length ?p" by simp
  have 2: "classify (rstrip (?p ! 0)) = Iter ''w'' ''[10, 20]''" by code_simp
  have 3: "?ev ''[10, 20]'' init_state = (Inr (VList [VInt 10, VInt 20]), init_state)"
    by (simp add: table_eval_def)
  have 4: "py_iter (VList [VInt 10, VInt 20]) = Inr [VInt 10, VInt 20]" by simp
  have 5: "collect_block ?p (0 + 1) = Inr ([''  print w''], 3)" by code_simp
  have 6: "length ?ss = Suc (length [VInt 10, VInt 20])" by simp
  have 7: "?ss ! 0 = init_state" by simp
  have 8: "\<forall>k<length [VInt 10, VInt 20].
      run_block (exec_lines ?ev (Suc (Suc 0))) (Suc (Suc 0)) [''  print w''] 0
        (bind_var ''w'' ([VInt 10, VInt 20] ! k) (?ss ! k)) = Some (Inr (), ?ss ! Suc k)"
    by (simp add: All_less_Suc c exec_step_def table_eval_def bind_var_def init_state_def)
  have a: "exec_lines ?ev (Suc (Suc (Suc 0))) ?p 0 init_state
      = exec_lines ?ev (Suc (Suc 0)) ?p 3 (last ?ss)"
    by (rule iterator_loop_chain [where ev = ?ev and lines = ?p and s = init_state and ss = ?ss,
          OF 1 2 3 4 5 6 7 8])
  have q1: "0 < length ?q" by simp
  have q2: "classify (rstrip (?q ! 0)) = Iter ''w'' ''[]''" by code_simp
  have q3: "?e ''[]'' init_state = (Inr (VList []), init_state)" by (simp add: table_eval_def)
  have q4: "py_iter (VList []) = Inr []" by simp
  have q5: "collect_block ?q (0 + 1) = Inr ([''  print w''], 3)" by code_simp
  have b: "exec_lines ?e (Suc (Suc (Suc 0))) ?q 0 init_state
      = exec_lines ?e (Suc (Suc 0)) ?q 3 (last [init_state])"
    by (rule iterator_loop_chain [where ev = ?e and lines = ?q and s = init_state
          and ss = "[init_state]" and elems = "[]", OF q1 q2 q3 q4 q5]) simp_all
  show ?thesis
    unfolding a b by (simp add: exec_step_def)
qed

section \<open>C-style loops\<close>

text \<open>
  A run of the loop of the C-style form with \<open>n\<close> turns: \<open>t k\<close> is the state
  before the condition is evaluated for the turn \<open>k\<close>, \<open>u k\<close> the state after it,
  and \<open>v k\<close> the state the body leaves.
\<close>

lemma cstyle_while_chain:
  assumes "\<forall>k<n. eval_cond ev cond (t k) = (Inr True, u k)
              \<and> body (u k) = Some (Inr (), v k)
              \<and> run_clause ev step (v k) = (Inr (), t (Suc k))"
    and "eval_cond ev cond (t n) = (Inr False, u n)"
    and "n < m"
  shows "cstyle_while ev body m cond step (t 0) = Some (Inr (), u n)"
  using assms
proof (induction n arbitrary: m t u v)
  case 0
  then obtain m' where "m = Suc m'" by (cases m) auto
  with 0 show ?case by simp
next
  case (Suc n)
  then obtain m' where m: "m = Suc m'" and lt: "n < m'" by (cases m) auto
  from Suc.prems(1) have first: "eval_cond ev cond (t 0) = (Inr True, u 0)"
    "body (u 0) = Some (Inr (), v 0)" "run_clause ev step (v 0) = (Inr (), t (Suc 0))"
    by auto
  have rest: "\<forall>k<n. eval_cond ev cond (t (Suc k)) = (Inr True, u (Suc k))
              \<and> body (u (Suc k)) = Some (Inr (), v (Suc k))
              \<and> run_clause ev step (v (Suc k)) = (Inr (), t (Suc (Suc k)))"
    using Suc.prems(1) by auto
  have "cstyle_while ev body m' cond step (t (Suc 0)) = Some (Inr (), u (Suc n))"
    using Suc.IH [of "\<lambda>k. t (Suc k)" "\<lambda>k. u (Suc k)" "\<lambda>k. v (Suc k)" m', OF rest Suc.prems(2) lt]
    by simp
  with first m show ?case by simp
qed

text \<open>
  \<^bold>\<open>C3.\<close>  Take a C-style header whose block is found.  Let the init clause, run
  once in the state the header was reached in, end normally in \<open>t 0\<close>.  For each of
  \<open>n\<close> turns let the condition, evaluated in \<open>t k\<close>, be true and leave \<open>u k\<close>,
  the body, started in \<open>u k\<close>, end normally in \<open>v k\<close>, and the step clause, run in
  \<open>v k\<close>, end normally in \<open>t (k + 1)\<close>.  Let the condition evaluated in \<open>t n\<close> be
  false and leave \<open>u n\<close>.  Then executing the header goes on after the terminator in
  the state \<open>u n\<close>: init has run once and first, the condition before every run of the
  body, the step after every run of the body and before the next test.  An empty clause
  does nothing as init or step and is true as a condition; a condition that is not
  empty is the truth value of what it evaluates to; a clause that is not an assignment
  is evaluated and its value dropped; an assignment clause binds the name to the value.
  The example \<^verbatim>\<open>for (j = 0; j < 3; j = j + 1) do print j end\<close> prints 0, 1, 2.
\<close>

theorem cstyle_loop_chain:
  assumes "i < length lines"
    and "classify (rstrip (lines ! i)) = CStyle init_s cond_s step_s"
    and "collect_block lines (i + 1) = Inr (block, j)"
    and "run_clause ev (do_assign init_s) s = (Inr (), t 0)"
    and "\<forall>k<n. eval_cond ev (strip cond_s) (t k) = (Inr True, u k)
              \<and> run_block (exec_lines ev f) f block 0 (u k) = Some (Inr (), v k)
              \<and> run_clause ev (do_assign step_s) (v k) = (Inr (), t (Suc k))"
    and "eval_cond ev (strip cond_s) (t n) = (Inr False, u n)"
    and "n < f"
  shows "exec_lines ev (Suc f) lines i s = exec_lines ev f lines j (u n)
       \<and> (\<forall>c x. strip c = [] \<longrightarrow>
             do_assign c = NoClause \<and> run_clause ev (do_assign c) x = (Inr (), x)
             \<and> eval_cond ev (strip c) x = (Inr True, x))
       \<and> (\<forall>c x y w. strip c \<noteq> [] \<and> ev (strip c) x = (Inr w, y) \<longrightarrow>
             eval_cond ev (strip c) x = (Inr (py_bool w), y)
             \<and> (re_match False RX_ASSIGN (strip c) = None \<longrightarrow>
                  run_clause ev (do_assign c) x = (Inr (), y)))
       \<and> (\<forall>c name rhs x y w. do_assign c = AssignClause name rhs \<and> ev rhs x = (Inr w, y) \<longrightarrow>
             run_clause ev (do_assign c) x = (Inr (), bind_var name w y))"
proof (intro conjI allI impI)
  have "cstyle_while ev (run_block (exec_lines ev f) f block 0) f (strip cond_s) (do_assign step_s) (t 0)
          = Some (Inr (), u n)"
    by (rule cstyle_while_chain [OF assms(5,6,7)])
  then show "exec_lines ev (Suc f) lines i s = exec_lines ev f lines j (u n)"
    using assms(1-4) by (simp add: exec_step_def)
qed (simp_all add: do_assign_def run_clause_def eval_cond_def Let_def)


theorem cstyle_loop_chain_witness:
  "exec_lines (table_eval [(''0'', Num 0), (''j'', Var ''j''), (''j < 3'', Less (Var ''j'') (Num 3)),
        (''j + 1'', Plus (Var ''j'') (Num 1))])
       (Suc (Suc (Suc (Suc (Suc 0)))))
       [''for (j = 0; j < 3; j = j + 1) do'', ''  print j'', ''end''] 0 init_state
     = Some (Inr 3, \<lparr>env = [''j'' \<mapsto> VInt 3], out = [VInt 0, VInt 1, VInt 2]\<rparr>)
   \<and> outcome (run (table_eval [(''2'', Num 2), (''x'', Var ''x''), (''x > 0'', Less (Num 0) (Var ''x'')),
        (''x - 1'', Plus (Var ''x'') (Num (- 1)))]) 8
       [''x = 2'', ''for (; x > 0; ) do'', ''  print x'', ''  x = x - 1'', ''end''])
     = Some (Inr (), [VInt 2, VInt 1])"
proof -
  let ?ev = "table_eval [(''0'', Num 0), (''j'', Var ''j''), (''j < 3'', Less (Var ''j'') (Num 3)),
        (''j + 1'', Plus (Var ''j'') (Num 1))]"
  let ?p = "[''for (j = 0; j < 3; j = j + 1) do'', ''  print j'', ''end'']"
  let ?t = "\<lambda>k. \<lparr>env = [''j'' \<mapsto> VInt (int k)], out = map (\<lambda>i. VInt (int i)) [0 ..< k]\<rparr>"
  let ?v = "\<lambda>k. \<lparr>env = [''j'' \<mapsto> VInt (int k)], out = map (\<lambda>i. VInt (int i)) [0 ..< Suc k]\<rparr>"
  let ?f = "Suc (Suc (Suc (Suc 0)))"
  have c: "classify (rstrip ''  print j'') = Print ''j''" by code_simp
  have di: "do_assign ''j = 0'' = AssignClause ''j'' ''0''" by code_simp
  have ds: "do_assign ''j = j + 1'' = AssignClause ''j'' ''j + 1''" by code_simp
  have sc: "strip ''j < 3'' = ''j < 3''" by code_simp
  have 1: "0 < length ?p" by simp
  have 2: "classify (rstrip (?p ! 0)) = CStyle ''j = 0'' ''j < 3'' ''j = j + 1''" by code_simp
  have 3: "collect_block ?p (0 + 1) = Inr ([''  print j''], 3)" by code_simp
  have 4: "run_clause ?ev (do_assign ''j = 0'') init_state = (Inr (), ?t 0)"
    by (simp add: di run_clause_def table_eval_def bind_var_def init_state_def)
  have 5: "\<forall>k<Suc (Suc (Suc 0)).
             eval_cond ?ev (strip ''j < 3'') (?t k) = (Inr True, ?t k)
           \<and> run_block (exec_lines ?ev ?f) ?f [''  print j''] 0 (?t k) = Some (Inr (), ?v k)
           \<and> run_clause ?ev (do_assign ''j = j + 1'') (?v k) = (Inr (), ?t (Suc k))"
    by (simp add: All_less_Suc sc ds c eval_cond_def run_clause_def exec_step_def table_eval_def
        bind_var_def)
  have 6: "eval_cond ?ev (strip ''j < 3'') (?t (Suc (Suc (Suc 0)))) = (Inr False, ?t (Suc (Suc (Suc 0))))"
    by (simp add: sc eval_cond_def table_eval_def)
  have 7: "Suc (Suc (Suc 0)) < ?f" by simp
  have a: "exec_lines ?ev (Suc ?f) ?p 0 init_state = exec_lines ?ev ?f ?p 3 (?t (Suc (Suc (Suc 0))))"
    using cstyle_loop_chain [where ev = ?ev and lines = ?p and s = init_state and t = ?t
        and u = ?t and v = ?v, OF 1 2 3 4 5 6 7] by blast
  have o: "outcome (run (table_eval [(''2'', Num 2), (''x'', Var ''x''), (''x > 0'', Less (Num 0) (Var ''x'')),
        (''x - 1'', Plus (Var ''x'') (Num (- 1)))]) 8
       [''x = 2'', ''for (; x > 0; ) do'', ''  print x'', ''  x = x - 1'', ''end''])
     = Some (Inr (), [VInt 2, VInt 1])" by code_simp
  show ?thesis
    unfolding a using o by (simp add: exec_step_def)
qed

section \<open>The loop variable after the loop\<close>









end
